theory Spec2Isabelle
  imports Main "HOL-Library.Word" "HOL-Library.Multiset"
begin

unbundle bit_operations_syntax

section \<open>List.h / List.cpp: the bounded pointer list\<close>

text \<open>
  A \<open>pObject\<close> is a \<^verbatim>\<open>void *\<close>: an address, with 0 the null pointer. The list keeps
  \<^verbatim>\<open>m_Counter\<close> and the array \<^verbatim>\<open>m_ptrList [MAX_LIST_PTRS]\<close>. The array is a HOL list of
  length \<open>MAX_LIST_PTRS\<close>; the slots from \<open>m_Counter\<close> on hold whatever was left there.
  \<^verbatim>\<open>m_Counter\<close> and the loop indices are \<^verbatim>\<open>uint8_t\<close> in the source; they never exceed
  \<open>MAX_LIST_PTRS\<close> (5), so they are natural numbers here. An index outside the array is
  undefined behaviour in the source; \<open>List_ok\<close> states the class invariant under which
  no operation of the timer reaches one.
\<close>

type_synonym pObject = nat

definition MAX_LIST_PTRS :: nat where
  "MAX_LIST_PTRS = 5"

record List =
  m_Counter :: nat
  m_ptrList :: "pObject list"

definition List_ok :: "List \<Rightarrow> bool" where
  "List_ok L = (m_Counter L \<le> MAX_LIST_PTRS \<and> length (m_ptrList L) = MAX_LIST_PTRS)"

text \<open>\<^verbatim>\<open>List::List ()\<close>: the argument is the content of the array before construction.\<close>

definition List_ctor :: "pObject list \<Rightarrow> List" where
  "List_ctor raw = \<lparr>m_Counter = 0, m_ptrList = raw[0 := 0]\<rparr>"

text \<open>\<^verbatim>\<open>List::Add\<close>; the value the source returns is \<open>m_Counter\<close> of the result.\<close>

definition Add :: "pObject \<Rightarrow> List \<Rightarrow> List" where
  "Add pData L =
     (if m_Counter L < MAX_LIST_PTRS
      then L\<lparr>m_ptrList := (m_ptrList L)[m_Counter L := pData], m_Counter := m_Counter L + 1\<rparr>
      else L)"

text \<open>The loop of \<^verbatim>\<open>List::InsertAt\<close>: \<^verbatim>\<open>for (i = m_Counter; i > index; i--)\<close>.\<close>

function InsertAt_loop :: "nat \<Rightarrow> nat \<Rightarrow> pObject list \<Rightarrow> pObject list" where
  "InsertAt_loop index i a =
     (if i > index then InsertAt_loop index (i - 1) (a[i := a ! (i - 1)]) else a)"
  by pat_completeness auto
termination
  by (relation "measure (\<lambda>(index, i, a). i)") auto

definition InsertAt :: "nat \<Rightarrow> pObject \<Rightarrow> List \<Rightarrow> List" where
  "InsertAt index pData L =
     (if m_Counter L < MAX_LIST_PTRS
      then L\<lparr>m_ptrList := (InsertAt_loop index (m_Counter L) (m_ptrList L))[index := pData],
             m_Counter := m_Counter L + 1\<rparr>
      else L)"

definition Swap :: "nat \<Rightarrow> nat \<Rightarrow> List \<Rightarrow> List" where
  "Swap i1 i2 L =
     (let temp = m_ptrList L ! i1;
          a1 = (m_ptrList L)[i1 := m_ptrList L ! i2]
      in L\<lparr>m_ptrList := a1[i2 := temp]\<rparr>)"

text \<open>
  The loop of \<^verbatim>\<open>List::Remove\<close>: \<^verbatim>\<open>for (i = index; i < m_Counter - 1; i++)\<close>. The bound is
  computed in \<^verbatim>\<open>int\<close>, so it is \<open>-1\<close> for an empty list.
\<close>

function Remove_loop :: "nat \<Rightarrow> nat \<Rightarrow> pObject list \<Rightarrow> pObject list" where
  "Remove_loop cnt i a =
     (if int i < int cnt - 1 then Remove_loop cnt (i + 1) (a[i := a ! (i + 1)]) else a)"
  by pat_completeness auto
termination
  by (relation "measure (\<lambda>(cnt, i, a). cnt - i)") auto

definition Remove :: "nat \<Rightarrow> List \<Rightarrow> List" where
  "Remove index L =
     (let L1 = L\<lparr>m_ptrList := Remove_loop (m_Counter L) index (m_ptrList L)\<rparr>
      in if index < m_Counter L1 then L1\<lparr>m_Counter := m_Counter L1 - 1\<rparr> else L1)"

text \<open>\<^verbatim>\<open>List::operator []\<close>, \<^verbatim>\<open>List::GetCount\<close> and \<^verbatim>\<open>List::isFull\<close>.\<close>

definition List_at :: "List \<Rightarrow> nat \<Rightarrow> pObject" where
  "List_at L index = m_ptrList L ! index"

definition GetCount :: "List \<Rightarrow> nat" where
  "GetCount L = m_Counter L"

definition List_isFull :: "List \<Rightarrow> bool" where
  "List_isFull L = (m_Counter L = MAX_LIST_PTRS)"

section \<open>Timer.h / Timer.cpp: timeElement\<close>

text \<open>
  The fields \<^verbatim>\<open>_timeOut\<close>, \<^verbatim>\<open>_timePeriod\<close>, \<^verbatim>\<open>_repeats\<close> are \<^verbatim>\<open>uint16_t\<close>;
  \<^verbatim>\<open>_callBack\<close> is the address of a function and \<^verbatim>\<open>_arg\<close> a \<^verbatim>\<open>void *\<close>.
\<close>

type_synonym uint16_t = "16 word"
type_synonym timerCallBack_t = nat

record timeElement =
  timeOut :: uint16_t
  timePeriod :: uint16_t
  repeats :: uint16_t
  callBack :: timerCallBack_t
  arg :: pObject

text \<open>
  The timer stores pointers to objects that the caller owns, and writes through them. The
  \<open>heap\<close> gives the object at every address. A callback is code of the caller: the
  model records each call in \<open>calls\<close>, as the address of the object that made it and the
  fields of that object at the moment of the call (\<open>callBack\<close> and \<open>arg\<close> among them), and
  takes the callback itself to leave the timer and the timeElements alone.
\<close>

record Timer =
  timeOutList :: List
  presentTime :: uint16_t

record world =
  timer :: Timer
  heap :: "pObject \<Rightarrow> timeElement"
  calls :: "(pObject \<times> timeElement) list"

definition getTimePeriod :: "timeElement \<Rightarrow> uint16_t" where
  "getTimePeriod te = timePeriod te"

definition getTimeOut :: "timeElement \<Rightarrow> uint16_t" where
  "getTimeOut te = timeOut te"

definition getRemaining :: "timeElement \<Rightarrow> uint16_t" where
  "getRemaining te = repeats te"

definition setTimeOut :: "uint16_t \<Rightarrow> timeElement \<Rightarrow> timeElement" where
  "setTimeOut to te = te\<lparr>timeOut := to AND 0x7FFF\<rparr>"

text \<open>\<^verbatim>\<open>timeElement::updateTimeOut\<close>, on the object at \<open>this\<close>; the source also returns the new
  \<^verbatim>\<open>_timeOut\<close>, which no caller in the repository reads.\<close>

definition updateTimeOut :: "pObject \<Rightarrow> world \<Rightarrow> world" where
  "updateTimeOut this w =
     w\<lparr>heap := (heap w)(this :=
          (heap w this)\<lparr>timeOut := (timePeriod (heap w this) + timeOut (heap w this)) AND 0x7fff\<rparr>)\<rparr>"

definition callFunction :: "pObject \<Rightarrow> world \<Rightarrow> world" where
  "callFunction this w = w\<lparr>calls := calls w @ [(this, heap w this)]\<rparr>"

text \<open>\<^verbatim>\<open>timeElement::clockAlarm\<close>: the returned flag and the state after it.\<close>

definition clockAlarm :: "pObject \<Rightarrow> world \<Rightarrow> bool \<times> world" where
  "clockAlarm this w =
     (let w1 = callFunction this w in
      if 0 \<noteq> repeats (heap w1 this)
      then (let w2 = w1\<lparr>heap := (heap w1)(this :=
                        (heap w1 this)\<lparr>repeats := repeats (heap w1 this) - 1\<rparr>)\<rparr>
            in if 0 = repeats (heap w2 this) then (False, w2) else (True, w2))
      else (True, w1))"

section \<open>Timer.h / Timer.cpp: Timer\<close>

text \<open>
  \<^verbatim>\<open>Timer::Timer ()\<close> sets hardware registers only: the list is built by its own
  constructor and \<^verbatim>\<open>_presentTime\<close> keeps the value of its storage, which is 0 for the
  global \<^verbatim>\<open>timer\<close> object.
\<close>

definition Timer_ctor :: "pObject list \<Rightarrow> uint16_t \<Rightarrow> Timer" where
  "Timer_ctor raw t0 = \<lparr>timeOutList = List_ctor raw, presentTime = t0\<rparr>"

definition getPresentTime :: "Timer \<Rightarrow> uint16_t" where
  "getPresentTime T = presentTime T"

definition getCount :: "Timer \<Rightarrow> nat" where
  "getCount T = GetCount (timeOutList T)"

definition isFull :: "Timer \<Rightarrow> bool" where
  "isFull T = List_isFull (timeOutList T)"

text \<open>The macro \<^verbatim>\<open>GET_TIMEOUT (x)\<close>.\<close>

definition GET_TIMEOUT :: "world \<Rightarrow> nat \<Rightarrow> uint16_t" where
  "GET_TIMEOUT w x = getTimeOut (heap w (List_at (timeOutList (timer w)) x))"

definition normalizeTimeOut :: "Timer \<Rightarrow> uint16_t \<Rightarrow> uint16_t" where
  "normalizeTimeOut T time = (if presentTime T > time then time OR 0x8000 else time)"

text \<open>The loop of \<^verbatim>\<open>Timer::Search\<close> and the function.\<close>

function Search_loop :: "pObject \<Rightarrow> world \<Rightarrow> nat \<Rightarrow> nat" where
  "Search_loop pArg w i =
     (if i < GetCount (timeOutList (timer w))
      then (if normalizeTimeOut (timer w) (getTimeOut (heap w pArg))
                 < normalizeTimeOut (timer w) (GET_TIMEOUT w i)
            then i
            else Search_loop pArg w (i + 1))
      else i)"
  by pat_completeness auto
termination
  by (relation "measure (\<lambda>(pArg, w, i). GetCount (timeOutList (timer w)) - i)") auto

definition Search :: "pObject \<Rightarrow> world \<Rightarrow> nat" where
  "Search pArg w =
     (if 0 = GetCount (timeOutList (timer w)) then 0 else Search_loop pArg w 0)"

definition InsertTimer :: "pObject \<Rightarrow> world \<Rightarrow> world" where
  "InsertTimer pArg w =
     (if GetCount (timeOutList (timer w)) > 0
      then w\<lparr>timer := (timer w)\<lparr>timeOutList := InsertAt (Search pArg w) pArg (timeOutList (timer w))\<rparr>\<rparr>
      else w\<lparr>timer := (timer w)\<lparr>timeOutList := Add pArg (timeOutList (timer w))\<rparr>\<rparr>)"

definition startTimer :: "pObject \<Rightarrow> world \<Rightarrow> world" where
  "startTimer pArg w =
     InsertTimer pArg
       (w\<lparr>heap := (heap w)(pArg :=
            setTimeOut (presentTime (timer w) + getTimePeriod (heap w pArg)) (heap w pArg))\<rparr>)"

text \<open>The loop of \<^verbatim>\<open>Timer::cancelTimer\<close>, which stops at the first slot holding \<open>pTE\<close>.\<close>

function cancelTimer_loop :: "pObject \<Rightarrow> List \<Rightarrow> nat \<Rightarrow> nat" where
  "cancelTimer_loop pTE L i =
     (if i < GetCount L
      then (if List_at L i = pTE then i else cancelTimer_loop pTE L (i + 1))
      else i)"
  by pat_completeness auto
termination
  by (relation "measure (\<lambda>(pTE, L, i). GetCount L - i)") auto

definition cancelTimer :: "pObject \<Rightarrow> world \<Rightarrow> world" where
  "cancelTimer pTE w =
     w\<lparr>timer := (timer w)\<lparr>timeOutList :=
          Remove (cancelTimer_loop pTE (timeOutList (timer w)) 0) (timeOutList (timer w))\<rparr>\<rparr>"

text \<open>
  \<^verbatim>\<open>Timer::NextTick\<close>. The inner \<^verbatim>\<open>for\<close> loop moves the head forward while it compares
  later than its successor. The \<^verbatim>\<open>while\<close> loop has no bound in the source, so it is a
  partial function: \<open>None\<close> means that the call does not return.
\<close>

function NextTick_sort :: "nat \<Rightarrow> world \<Rightarrow> world" where
  "NextTick_sort i w =
     (if i < GetCount (timeOutList (timer w))
      then (if normalizeTimeOut (timer w) (GET_TIMEOUT w (i - 1))
                 > normalizeTimeOut (timer w) (GET_TIMEOUT w i)
            then NextTick_sort (i + 1)
                   (w\<lparr>timer := (timer w)\<lparr>timeOutList := Swap (i - 1) i (timeOutList (timer w))\<rparr>\<rparr>)
            else w)
      else w)"
  by pat_completeness auto
termination
  by (relation "measure (\<lambda>(i, w). GetCount (timeOutList (timer w)) - i)")
     (auto simp: GetCount_def Swap_def Let_def)

definition NextTick_body :: "world \<Rightarrow> world" where
  "NextTick_body w =
     (let w1 = updateTimeOut (List_at (timeOutList (timer w)) 0) w;
          w2 = snd (clockAlarm (List_at (timeOutList (timer w1)) 0) w1)
      in NextTick_sort 1 w2)"

partial_function (option) NextTick_while :: "world \<Rightarrow> world option" where
  "NextTick_while w =
     (if presentTime (timer w) = GET_TIMEOUT w 0
      then NextTick_while (NextTick_body w)
      else Some w)"

definition NextTick :: "world \<Rightarrow> world option" where
  "NextTick w =
     (let w1 = w\<lparr>timer := (timer w)\<lparr>presentTime := (presentTime (timer w) + 1) AND 0x7fff\<rparr>\<rparr>
      in if 0 = getCount (timer w1) then Some w1 else NextTick_while w1)"

text \<open>
  The \<^verbatim>\<open>while\<close> loop of \<^verbatim>\<open>NextTick\<close> cut after at most \<open>n\<close> passes: the state that a tick
  has reached by then, whether or not its loop ever ends.
\<close>

fun NextTick_passes :: "nat \<Rightarrow> world \<Rightarrow> world" where
  "NextTick_passes 0 w = w"
| "NextTick_passes (Suc n) w =
     (if presentTime (timer w) = GET_TIMEOUT w 0 then NextTick_passes n (NextTick_body w) else w)"

section \<open>The pending list as a sequence\<close>

text \<open>
  The stored sequence of references: the first \<open>m_Counter\<close> slots of the array. \<open>wakeKey\<close>
  is the value the source compares for a stored record, \<^verbatim>\<open>normalizeTimeOut (GET_TIMEOUT (i))\<close>.
\<close>

definition entries :: "List \<Rightarrow> pObject list" where
  "entries L = take (m_Counter L) (m_ptrList L)"

definition pending :: "world \<Rightarrow> pObject list" where
  "pending w = entries (timeOutList (timer w))"

definition wakeKey :: "world \<Rightarrow> pObject \<Rightarrow> uint16_t" where
  "wakeKey w p = normalizeTimeOut (timer w) (getTimeOut (heap w p))"

text \<open>
  The sort invariant as the specification words it, on adjacent slots: the comparison that
  the \<^verbatim>\<open>for\<close> loop of \<^verbatim>\<open>NextTick\<close> makes between slots \<open>i - 1\<close> and \<open>i\<close> is false for
  every \<open>i\<close> from 1 up to the count.
\<close>

definition pending_sorted :: "world \<Rightarrow> bool" where
  "pending_sorted w =
     (\<forall>i \<in> set [1 ..< getCount (timer w)].
        \<not> normalizeTimeOut (timer w) (GET_TIMEOUT w (i - 1))
            > normalizeTimeOut (timer w) (GET_TIMEOUT w i))"

text \<open>What the \<^verbatim>\<open>for\<close> loop of \<^verbatim>\<open>NextTick\<close> does to the sequence: the first element
  moves forward past every element it compares later than, up to the first that it does not.\<close>

fun bubble :: "('a \<Rightarrow> uint16_t) \<Rightarrow> 'a \<Rightarrow> 'a list \<Rightarrow> 'a list" where
  "bubble k x [] = [x]"
| "bubble k x (y # ys) = (if k x > k y then y # bubble k x ys else x # y # ys)"

section \<open>Sequences of operations\<close>

text \<open>
  The three operations that change the scheduler: \<^verbatim>\<open>startTimer\<close>, \<^verbatim>\<open>cancelTimer\<close> and the
  tick \<^verbatim>\<open>NextTick\<close>. A run is \<open>None\<close> when one of its ticks does not return. Each operation
  of a run is made to its end before the next starts: a tick interrupt taken in the middle of
  \<^verbatim>\<open>startTimer\<close> or \<^verbatim>\<open>cancelTimer\<close> is outside this model.
\<close>

datatype timer_op = Start pObject | Cancel pObject | Tick

fun step :: "timer_op \<Rightarrow> world \<Rightarrow> world option" where
  "step (Start p) w = Some (startTimer p w)"
| "step (Cancel p) w = Some (cancelTimer p w)"
| "step Tick w = NextTick w"

fun run :: "timer_op list \<Rightarrow> world \<Rightarrow> world option" where
  "run [] w = Some w"
| "run (x # xs) w = (case step x w of None \<Rightarrow> None | Some w' \<Rightarrow> run xs w')"

text \<open>The scheduler before any operation: the list as constructed, the clock at 0, no call made.\<close>

definition empty_world :: "pObject list \<Rightarrow> (pObject \<Rightarrow> timeElement) \<Rightarrow> world" where
  "empty_world raw h = \<lparr>timer = Timer_ctor raw 0, heap = h, calls = []\<rparr>"

text \<open>The first statement of \<^verbatim>\<open>NextTick\<close>: the state in which its loop starts.\<close>

definition tick_clock :: "world \<Rightarrow> world" where
  "tick_clock w =
     w\<lparr>timer := (timer w)\<lparr>presentTime := (presentTime (timer w) + 1) AND 0x7fff\<rparr>\<rparr>"

section \<open>Conditions on states and on runs\<close>

text \<open>
  A record is due when its wake time is the clock: the test of the \<^verbatim>\<open>while\<close> loop of
  \<^verbatim>\<open>NextTick\<close>, made there on the head of the list.
\<close>

definition due :: "world \<Rightarrow> pObject \<Rightarrow> bool" where
  "due w p = (presentTime (timer w) = getTimeOut (heap w p))"

text \<open>
  \<open>tick_ok\<close>: what the loop of a tick needs to end. The list is within its array, the clock
  is in \<open>[0, 0x7FFF]\<close> and no pending record has a period that is a multiple of \<open>0x8000\<close>
  (such a record, once due, is due again at once: \<open>updateTimeOut\<close> gives it the same wake
  time).
\<close>

definition tick_ok :: "world \<Rightarrow> bool" where
  "tick_ok w =
     (List_ok (timeOutList (timer w)) \<and> presentTime (timer w) \<le> 0x7FFF
      \<and> (\<forall>p \<in> set (pending w). timePeriod (heap w p) AND 0x7FFF \<noteq> 0))"

text \<open>
  \<open>stuck\<close>: the head of the list is due and its period is a multiple of \<open>0x8000\<close>.
\<close>

definition stuck :: "world \<Rightarrow> bool" where
  "stuck w =
     (List_ok (timeOutList (timer w)) \<and> presentTime (timer w) \<le> 0x7FFF \<and> pending w \<noteq> []
      \<and> due w (hd (pending w)) \<and> timePeriod (heap w (hd (pending w))) AND 0x7FFF = 0)"

text \<open>
  \<open>sched_inv\<close>: the state of a scheduler in orderly use, as it is inside a tick. On top of
  \<open>tick_ok\<close>: no reference is stored twice, the wake times are in \<open>[0, 0x7FFF]\<close>, and the
  sequence is sorted by the wrap-safe comparison. \<open>idle_inv\<close> is the state between two
  operations, where moreover no pending record is due.
\<close>

definition sched_inv :: "world \<Rightarrow> bool" where
  "sched_inv w =
     (tick_ok w \<and> distinct (pending w)
      \<and> (\<forall>p \<in> set (pending w). timeOut (heap w p) \<le> 0x7FFF)
      \<and> sorted (map (wakeKey w) (pending w)))"

definition idle_inv :: "world \<Rightarrow> bool" where
  "idle_inv w = (sched_inv w \<and> (\<forall>p \<in> set (pending w). \<not> due w p))"

text \<open>
  Orderly use: \<open>startTimer\<close> is given a record that is not pending already, with a period
  that is not a multiple of \<open>0x8000\<close>. A run is admissible when each of its operations is,
  in the state in which it is made.
\<close>

fun admissible :: "timer_op \<Rightarrow> world \<Rightarrow> bool" where
  "admissible (Start p) w = (p \<notin> set (pending w) \<and> timePeriod (heap w p) AND 0x7FFF \<noteq> 0)"
| "admissible (Cancel p) w = True"
| "admissible Tick w = True"

fun admissible_run :: "timer_op list \<Rightarrow> world \<Rightarrow> bool" where
  "admissible_run [] w = True"
| "admissible_run (x # xs) w =
     (admissible x w \<and> (case step x w of None \<Rightarrow> True | Some w' \<Rightarrow> admissible_run xs w'))"

text \<open>
  A run that leaves two pending records \<open>a\<close> and \<open>b\<close> waiting: it is orderly, it cancels
  neither of them, and none of its ticks brings the clock to the wake time of \<open>a\<close>.
\<close>

fun quiet :: "pObject \<Rightarrow> pObject \<Rightarrow> timer_op \<Rightarrow> world \<Rightarrow> bool" where
  "quiet a b (Start p) w = admissible (Start p) w"
| "quiet a b (Cancel p) w = (p \<noteq> a \<and> p \<noteq> b)"
| "quiet a b Tick w = ((presentTime (timer w) + 1) AND 0x7fff \<noteq> timeOut (heap w a))"

fun quiet_run :: "pObject \<Rightarrow> pObject \<Rightarrow> timer_op list \<Rightarrow> world \<Rightarrow> bool" where
  "quiet_run a b [] w = True"
| "quiet_run a b (x # xs) w =
     (quiet a b x w \<and> (case step x w of None \<Rightarrow> True | Some w' \<Rightarrow> quiet_run a b xs w'))"

text \<open>The objects that made the calls after the first \<open>n\<close>, in the order of the calls.\<close>

definition callers_from :: "nat \<Rightarrow> world \<Rightarrow> pObject list" where
  "callers_from n w = map fst (drop n (calls w))"

text \<open>
  \<open>waiting a b t\<close>: the scheduler is idle and in order, \<open>a\<close> and \<open>b\<close> are both pending with
  wake time \<open>t\<close>, and \<open>a\<close> is stored before \<open>b\<close>.
\<close>

definition waiting :: "pObject \<Rightarrow> pObject \<Rightarrow> uint16_t \<Rightarrow> world \<Rightarrow> bool" where
  "waiting a b t w =
     (idle_inv w \<and> filter (\<lambda>p. p = a \<or> p = b) (pending w) = [a, b]
      \<and> timeOut (heap w a) = t \<and> timeOut (heap w b) = t)"

section \<open>Example objects and states\<close>

definition elem :: "uint16_t \<Rightarrow> uint16_t \<Rightarrow> uint16_t \<Rightarrow> timeElement" where
  "elem t p r = \<lparr>timeOut = t, timePeriod = p, repeats = r, callBack = 0, arg = 0\<rparr>"

text \<open>A heap in which the object at address \<open>p\<close> has period \<open>p\<close> and repeats forever.\<close>

definition period_heap :: "pObject \<Rightarrow> timeElement" where
  "period_heap p = elem 0 (of_nat p) 0"

definition const_heap :: "timeElement \<Rightarrow> pObject \<Rightarrow> timeElement" where
  "const_heap te p = te"

text \<open>A heap in which every object is due at \<open>t\<close>, with period 10.\<close>

definition due_heap :: "uint16_t \<Rightarrow> uint16_t \<Rightarrow> pObject \<Rightarrow> timeElement" where
  "due_heap t r p = elem t 10 r"

definition mk_world :: "nat \<Rightarrow> pObject list \<Rightarrow> uint16_t \<Rightarrow> (pObject \<Rightarrow> timeElement) \<Rightarrow> world" where
  "mk_world n a t h =
     \<lparr>timer = \<lparr>timeOutList = \<lparr>m_Counter = n, m_ptrList = a\<rparr>, presentTime = t\<rparr>,
      heap = h, calls = []\<rparr>"

declare InsertAt_loop.simps [simp del]
declare Remove_loop.simps [simp del]
declare Search_loop.simps [simp del]
declare cancelTimer_loop.simps [simp del]
declare NextTick_sort.simps [simp del]

section \<open>The wrap-safe comparison\<close>

lemma bit15_clear:
  assumes "t \<le> (0x7FFF::16 word)" shows "\<not> bit t 15"
proof -
  have "t < 2 ^ 15" using assms by (simp add: word_le_def word_less_def)
  then have "take_bit 15 t = t" by (simp add: mod_word_less take_bit_eq_mod)
  then have "bit t 15 = bit (take_bit 15 t) 15" by simp
  then show ?thesis by (simp add: bit_take_bit_iff)
qed

lemma bit_8000: "bit (0x8000::16 word) n \<longleftrightarrow> n = 15"
proof -
  have "(0x8000::16 word) = 2 ^ 15" by simp
  then show ?thesis by (simp only: bit_exp_iff) auto
qed

lemma or_8000:
  assumes "t \<le> (0x7FFF::16 word)" shows "t OR 0x8000 = t + 0x8000"
proof (rule sym, rule disjunctive_add)
  fix n show "\<not> bit t n \<or> \<not> bit (0x8000::16 word) n"
    using bit15_clear [OF assms] bit_8000 [of n] by blast
qed

lemma and_7fff_le: "(x::16 word) AND 0x7fff \<le> 0x7fff"
  by (rule word_and_le1)

lemma and_7fff_uint: "uint ((x::16 word) AND 0x7fff) = uint x mod 0x8000"
proof -
  have "(0x7fff::16 word) = mask 15" by (simp add: mask_eq_exp_minus_1)
  then have "x AND 0x7fff = take_bit 15 x" by (simp only: take_bit_eq_mask)
  then have "x AND 0x7fff = x mod 2 ^ 15" by (simp add: take_bit_eq_mod)
  then show ?thesis by (simp add: uint_mod)
qed

lemma mod_8000_neg:
  assumes "0 \<le> a" "a < b" "b \<le> 0x7FFF"
  shows "(a - b) mod 0x8000 = a - b + (0x8000::int)"
proof -
  have "(a - b) mod 0x8000 = (a - b + 0x8000) mod 0x8000" by simp
  also have "\<dots> = a - b + 0x8000" using assms by (intro mod_pos_pos_trivial) linarith+
  finally show ?thesis .
qed

lemma mod_8000_pos:
  "b \<le> a \<Longrightarrow> a \<le> 0x7FFF \<Longrightarrow> 0 \<le> b \<Longrightarrow> (a - b) mod 0x8000 = a - (b::int)"
  by (intro mod_pos_pos_trivial) linarith+

lemma uint_le_7fff: "t \<le> (0x7FFF::16 word) \<Longrightarrow> uint t \<le> 0x7FFF"
  by (simp add: word_le_def)

lemma uint_plus_8000:
  assumes "t \<le> (0x7FFF::16 word)" shows "uint (t + 0x8000) = uint t + 0x8000"
proof -
  have "uint t + 0x8000 < 2 ^ 16" using uint_le_7fff [OF assms] by simp
  then show ?thesis using uint_ge_0 [of t] by (simp add: uint_word_ariths mod_pos_pos_trivial)
qed

lemma norm_uint:
  assumes "presentTime T \<le> 0x7FFF" "t \<le> 0x7FFF"
  shows "uint (normalizeTimeOut T t)
         = uint (presentTime T) + (uint t - uint (presentTime T)) mod 0x8000"
proof (cases "presentTime T > t")
  case True
  then have "uint t < uint (presentTime T)" by (simp add: word_less_def)
  then have "(uint t - uint (presentTime T)) mod 0x8000 = uint t - uint (presentTime T) + 0x8000"
    using uint_le_7fff [OF assms(1)] by (intro mod_8000_neg) simp_all
  then show ?thesis
    using True assms(2) by (simp add: normalizeTimeOut_def or_8000 uint_plus_8000)
next
  case False
  then have "uint (presentTime T) \<le> uint t" by (simp add: word_less_def)
  then have "(uint t - uint (presentTime T)) mod 0x8000 = uint t - uint (presentTime T)"
    using uint_le_7fff [OF assms(2)] by (intro mod_8000_pos) simp_all
  then show ?thesis using False by (simp add: normalizeTimeOut_def)
qed

text \<open>
  C2. For a clock and two wake times in \<open>[0, 0x7FFF]\<close>, the normalized values compare as
  the times until wake, \<open>(t - now) mod 0x8000\<close>, do; and a wake time below the clock
  normalizes above every wake time that is not below it.
\<close>

theorem normalizeTimeOut_orders_time_until_wake:
  assumes "presentTime T \<le> 0x7FFF" and "t1 \<le> 0x7FFF" and "t2 \<le> 0x7FFF"
  shows "((normalizeTimeOut T t1 < normalizeTimeOut T t2) \<longleftrightarrow>
          ((uint t1 - uint (presentTime T)) mod 0x8000
             < (uint t2 - uint (presentTime T)) mod 0x8000))
       \<and> (presentTime T > t1 \<and> \<not> presentTime T > t2
            \<longrightarrow> normalizeTimeOut T t1 > normalizeTimeOut T t2)"
proof -
  have iff: "(normalizeTimeOut T t1 < normalizeTimeOut T t2) \<longleftrightarrow>
          ((uint t1 - uint (presentTime T)) mod 0x8000
             < (uint t2 - uint (presentTime T)) mod 0x8000)"
    by (simp add: word_less_def norm_uint [OF assms(1) assms(2)] norm_uint [OF assms(1) assms(3)])
  have "normalizeTimeOut T t1 > normalizeTimeOut T t2"
    if "presentTime T > t1" "\<not> presentTime T > t2"
  proof -
    have "uint (normalizeTimeOut T t2) = uint t2"
      using that by (simp add: normalizeTimeOut_def)
    moreover have "uint (normalizeTimeOut T t1) = uint t1 + 0x8000"
      using that assms(2) by (simp add: normalizeTimeOut_def or_8000 uint_plus_8000)
    moreover have "uint t2 < 0x8000" using assms(3) by (simp add: word_le_def)
    moreover have "uint t2 < uint t1 + 0x8000"
      using \<open>uint t2 < 0x8000\<close> uint_ge_0 [of t1] by linarith
    ultimately show ?thesis by (simp add: word_less_def)
  qed
  with iff show ?thesis by blast
qed

text \<open>
  The clock is \<open>0x7FFE\<close>: the wake time 3 is 5 ticks away and normalizes to \<open>0x8003\<close>, above
  the wake time \<open>0x7FFF\<close>, which is 1 tick away.
\<close>

theorem normalizeTimeOut_orders_time_until_wake_witness:
  "presentTime \<lparr>timeOutList = List_ctor [], presentTime = 0x7FFE\<rparr> \<le> 0x7FFF
   \<and> (3::16 word) \<le> 0x7FFF \<and> (0x7FFF::16 word) \<le> 0x7FFF
   \<and> (3::16 word) < 0x7FFE \<and> \<not> (0x7FFF::16 word) < 0x7FFE
   \<and> normalizeTimeOut \<lparr>timeOutList = List_ctor [], presentTime = 0x7FFE\<rparr> 0x7FFF
       < normalizeTimeOut \<lparr>timeOutList = List_ctor [], presentTime = 0x7FFE\<rparr> 3"
  using normalizeTimeOut_orders_time_until_wake
          [of "\<lparr>timeOutList = List_ctor [], presentTime = 0x7FFE\<rparr>" 3 "0x7FFF"]
  by simp

section \<open>Evaluating a concrete state\<close>

lemmas eval_defs =
  startTimer_def InsertTimer_def Search_def Search_loop.simps InsertAt_def InsertAt_loop.simps
  Add_def NextTick_def NextTick_while.simps NextTick_body_def NextTick_sort.simps getCount_def
  Swap_def updateTimeOut_def clockAlarm_def callFunction_def Let_def cancelTimer_def
  cancelTimer_loop.simps Remove_def Remove_loop.simps empty_world_def Timer_ctor_def
  List_ctor_def period_heap_def elem_def GetCount_def normalizeTimeOut_def GET_TIMEOUT_def
  List_at_def getTimeOut_def setTimeOut_def getTimePeriod_def MAX_LIST_PTRS_def mk_world_def
  due_heap_def const_heap_def tick_clock_def isFull_def List_isFull_def entries_def pending_def List_ok_def

section \<open>timeElement::clockAlarm\<close>

text \<open>
  C4. \<open>clockAlarm\<close> makes one call, by the object as it is on entry (its \<open>callBack\<close> with its
  \<open>arg\<close>, its \<open>repeats\<close> not yet decremented), then decrements \<open>repeats\<close> exactly when it is
  not 0, and returns false exactly when that decrement gave 0. With \<open>repeats = 0\<close> on entry the
  field stays 0 and the result is true; with \<open>repeats = 1\<close> the result is false.
\<close>

theorem clockAlarm_fires_then_counts:
  "calls (snd (clockAlarm this w)) = calls w @ [(this, heap w this)]
   \<and> timer (snd (clockAlarm this w)) = timer w
   \<and> heap (snd (clockAlarm this w)) =
        (if repeats (heap w this) \<noteq> 0
         then (heap w)(this := (heap w this)\<lparr>repeats := repeats (heap w this) - 1\<rparr>)
         else heap w)
   \<and> (fst (clockAlarm this w) = False
        \<longleftrightarrow> (repeats (heap w this) \<noteq> 0 \<and> repeats (heap w this) - 1 = 0))
   \<and> (repeats (heap w this) = 0
        \<longrightarrow> fst (clockAlarm this w) \<and> repeats (heap (snd (clockAlarm this w)) this) = 0)
   \<and> (repeats (heap w this) = 1 \<longrightarrow> \<not> fst (clockAlarm this w))"
  by (simp add: clockAlarm_def callFunction_def Let_def)

text \<open>
  A record with \<open>repeats = 1\<close> makes its call and returns false with \<open>repeats = 0\<close>; a record
  with \<open>repeats = 0\<close> returns true and keeps 0.
\<close>

theorem clockAlarm_fires_then_counts_witness:
  "repeats (heap (mk_world 1 [1, 0, 0, 0, 0] 100 (due_heap 100 1)) 1) = 1
   \<and> fst (clockAlarm 1 (mk_world 1 [1, 0, 0, 0, 0] 100 (due_heap 100 1))) = False
   \<and> repeats (heap (snd (clockAlarm 1 (mk_world 1 [1, 0, 0, 0, 0] 100 (due_heap 100 1)))) 1) = 0
   \<and> calls (snd (clockAlarm 1 (mk_world 1 [1, 0, 0, 0, 0] 100 (due_heap 100 1))))
        = [(1, elem 100 10 1)]
   \<and> repeats (heap (mk_world 1 [1, 0, 0, 0, 0] 100 (due_heap 100 0)) 1) = 0
   \<and> fst (clockAlarm 1 (mk_world 1 [1, 0, 0, 0, 0] 100 (due_heap 100 0))) = True
   \<and> repeats (heap (snd (clockAlarm 1 (mk_world 1 [1, 0, 0, 0, 0] 100 (due_heap 100 0)))) 1) = 0"
  using clockAlarm_fires_then_counts [of 1 "mk_world 1 [1, 0, 0, 0, 0] 100 (due_heap 100 1)"]
        clockAlarm_fires_then_counts [of 1 "mk_world 1 [1, 0, 0, 0, 0] 100 (due_heap 100 0)"]
  by (simp add: mk_world_def due_heap_def elem_def)

section \<open>Timer::Search\<close>

lemma Search_loop_spec:
  "i \<le> Search_loop pArg w i
   \<and> (i \<le> GetCount (timeOutList (timer w))
        \<longrightarrow> Search_loop pArg w i \<le> GetCount (timeOutList (timer w)))
   \<and> (\<forall>j. i \<le> j \<and> j < Search_loop pArg w i \<longrightarrow>
          \<not> normalizeTimeOut (timer w) (getTimeOut (heap w pArg))
              < normalizeTimeOut (timer w) (GET_TIMEOUT w j))
   \<and> (Search_loop pArg w i < GetCount (timeOutList (timer w)) \<longrightarrow>
          normalizeTimeOut (timer w) (getTimeOut (heap w pArg))
            < normalizeTimeOut (timer w) (GET_TIMEOUT w (Search_loop pArg w i)))"
proof (induction pArg w i rule: Search_loop.induct)
  case (1 pArg w i)
  show ?case
  proof (cases "i < GetCount (timeOutList (timer w))")
    case False
    then have eq: "Search_loop pArg w i = i" by (subst Search_loop.simps) simp
    show ?thesis unfolding eq using False by auto
  next
    case True
    show ?thesis
    proof (cases "normalizeTimeOut (timer w) (getTimeOut (heap w pArg))
                 < normalizeTimeOut (timer w) (GET_TIMEOUT w i)")
      case True
      with \<open>i < GetCount (timeOutList (timer w))\<close> have eq: "Search_loop pArg w i = i"
        by (subst Search_loop.simps) simp
      show ?thesis
        unfolding eq using True \<open>i < GetCount (timeOutList (timer w))\<close> by auto
    next
      case False
      note IH = 1 [OF True False]
      have eq: "Search_loop pArg w i = Search_loop pArg w (i + 1)"
        using True False by (subst Search_loop.simps) simp
      have "\<not> normalizeTimeOut (timer w) (getTimeOut (heap w pArg))
              < normalizeTimeOut (timer w) (GET_TIMEOUT w j)"
        if "i \<le> j" "j < Search_loop pArg w (i + 1)" for j
      proof (cases "j = i")
        case True then show ?thesis using False by simp
      next
        case False
        with that have "i + 1 \<le> j" by simp
        with IH that show ?thesis by blast
      qed
      with IH True show ?thesis unfolding eq by auto
    qed
  qed
qed

text \<open>
  C6, as the code has it. \<open>Search\<close> returns the least index whose stored wake time is
  strictly later than the new record's under the wrap-safe comparison, and the count when
  there is none: every slot before the result is not later than the new record, ties
  included. This holds for every list, sorted or not, empty or not.
\<close>

theorem Search_first_strictly_later:
  "Search pArg w \<le> getCount (timer w)
   \<and> (\<forall>j < Search pArg w.
          \<not> normalizeTimeOut (timer w) (getTimeOut (heap w pArg))
              < normalizeTimeOut (timer w) (GET_TIMEOUT w j))
   \<and> (Search pArg w < getCount (timer w) \<longrightarrow>
          normalizeTimeOut (timer w) (getTimeOut (heap w pArg))
            < normalizeTimeOut (timer w) (GET_TIMEOUT w (Search pArg w)))"
proof (cases "0 = GetCount (timeOutList (timer w))")
  case True
  then show ?thesis by (simp add: Search_def getCount_def)
next
  case False
  then have "Search pArg w = Search_loop pArg w 0" by (simp add: Search_def)
  then show ?thesis using Search_loop_spec [of 0 pArg w] by (simp add: getCount_def)
qed

text \<open>
  Three records waking at 5, 10 and 20 with the clock at 0, and a new record waking at 10:
  the result is 2, the slot of the record waking at 20, and slots 0 and 1 are not later
  than the new record.
\<close>

theorem Search_first_strictly_later_witness:
  "Search 4
      (mk_world 3 [1, 2, 3, 0, 0] 0 ((due_heap 10 0)(1 := elem 5 5 0, 3 := elem 20 20 0))) = 2
   \<and> getCount (timer
      (mk_world 3 [1, 2, 3, 0, 0] 0 ((due_heap 10 0)(1 := elem 5 5 0, 3 := elem 20 20 0)))) = 3"
  using Search_first_strictly_later
    [of 4 "mk_world 3 [1, 2, 3, 0, 0] 0 ((due_heap 10 0)(1 := elem 5 5 0, 3 := elem 20 20 0))"]
  by (simp add: eval_defs)

text \<open>
  C6 as the specification words it fails on a tie. One record waking at 10 is pending, the
  list is sorted, and the new record wakes at 10 too: slot 0 is not earlier than the new
  record, so the least such index is 0, and \<open>Search\<close> returns 1.
\<close>

theorem Search_not_first_not_earlier:
  "0 < getCount (timer (mk_world 1 [1, 0, 0, 0, 0] 0 (due_heap 10 0)))
   \<and> pending_sorted (mk_world 1 [1, 0, 0, 0, 0] 0 (due_heap 10 0))
   \<and> normalizeTimeOut (timer (mk_world 1 [1, 0, 0, 0, 0] 0 (due_heap 10 0)))
         (GET_TIMEOUT (mk_world 1 [1, 0, 0, 0, 0] 0 (due_heap 10 0)) 0)
       \<ge> normalizeTimeOut (timer (mk_world 1 [1, 0, 0, 0, 0] 0 (due_heap 10 0)))
           (getTimeOut (heap (mk_world 1 [1, 0, 0, 0, 0] 0 (due_heap 10 0)) 2))
   \<and> Search 2 (mk_world 1 [1, 0, 0, 0, 0] 0 (due_heap 10 0)) = 1"
  by (simp add: eval_defs pending_sorted_def)

section \<open>Timer::startTimer on a full list\<close>

lemma startTimer_full_timer:
  assumes "isFull (timer w)"
  shows "timer (startTimer pArg w) = timer w"
  using assms
  by (simp add: startTimer_def InsertTimer_def InsertAt_def Add_def isFull_def
                List_isFull_def GetCount_def)

lemma startTimer_calls: "calls (startTimer pArg w) = calls w"
  by (simp add: startTimer_def InsertTimer_def)

lemma startTimer_heap:
  "heap (startTimer pArg w) =
     (heap w)(pArg := (heap w pArg)\<lparr>timeOut :=
        (presentTime (timer w) + timePeriod (heap w pArg)) AND 0x7FFF\<rparr>)"
  by (simp add: startTimer_def InsertTimer_def setTimeOut_def getTimePeriod_def)

lemma uint_add_and_7fff:
  "uint ((a + b) AND (0x7fff::16 word)) = (uint a + uint b) mod 0x8000"
proof -
  have "uint ((a + b) AND 0x7fff) = ((uint a + uint b) mod 2 ^ 16) mod 0x8000"
    by (simp add: and_7fff_uint uint_word_ariths)
  also have "\<dots> = (uint a + uint b) mod 0x8000"
    by (rule mod_mod_cancel) simp
  finally show ?thesis .
qed

text \<open>
  C8. When the list is full, \<open>startTimer\<close> leaves the timer object as it is: the count, the
  full flag, the stored sequence of references and the clock. It returns nothing to the
  caller and makes no call.
\<close>

theorem startTimer_full_rejected:
  assumes "isFull (timer w)"
  shows "getCount (timer (startTimer pArg w)) = getCount (timer w)
       \<and> isFull (timer (startTimer pArg w))
       \<and> pending (startTimer pArg w) = pending w
       \<and> timer (startTimer pArg w) = timer w
       \<and> calls (startTimer pArg w) = calls w"
  using assms by (simp add: startTimer_full_timer startTimer_calls pending_def)

text \<open>Five records are stored and a sixth is started: the list is as it was.\<close>

theorem startTimer_full_rejected_witness:
  "isFull (timer (mk_world 5 [1, 2, 3, 4, 5] 0 period_heap))
   \<and> getCount (timer (startTimer 6 (mk_world 5 [1, 2, 3, 4, 5] 0 period_heap))) = 5
   \<and> isFull (timer (startTimer 6 (mk_world 5 [1, 2, 3, 4, 5] 0 period_heap)))
   \<and> pending (startTimer 6 (mk_world 5 [1, 2, 3, 4, 5] 0 period_heap)) = [1, 2, 3, 4, 5]"
  using startTimer_full_rejected [of "mk_world 5 [1, 2, 3, 4, 5] 0 period_heap" 6]
  by (simp add: eval_defs)

text \<open>
  C10. When the list is full, \<open>startTimer\<close> still writes \<open>(clock + period) mod 0x8000\<close> to
  the \<open>timeOut\<close> field of the caller's record, while the timer object stays as it is; the
  heap is changed whenever the field held another value.
\<close>

theorem startTimer_full_writes_timeOut:
  assumes "isFull (timer w)"
  shows "timeOut (heap (startTimer pArg w) pArg)
           = (presentTime (timer w) + timePeriod (heap w pArg)) AND 0x7FFF
       \<and> uint (timeOut (heap (startTimer pArg w) pArg))
           = (uint (presentTime (timer w)) + uint (timePeriod (heap w pArg))) mod 0x8000
       \<and> timer (startTimer pArg w) = timer w
       \<and> (timeOut (heap w pArg) \<noteq> (presentTime (timer w) + timePeriod (heap w pArg)) AND 0x7FFF
            \<longrightarrow> heap (startTimer pArg w) \<noteq> heap w)"
proof -
  have "heap (startTimer pArg w) \<noteq> heap w"
    if "timeOut (heap w pArg) \<noteq> (presentTime (timer w) + timePeriod (heap w pArg)) AND 0x7FFF"
  proof
    assume "heap (startTimer pArg w) = heap w"
    then have "timeOut (heap (startTimer pArg w) pArg) = timeOut (heap w pArg)" by simp
    with that show False by (simp add: startTimer_heap)
  qed
  then show ?thesis
    using assms by (simp add: startTimer_heap startTimer_full_timer uint_add_and_7fff)
qed

text \<open>
  The list is full and the clock is 7: the rejected record 6, of period 6, has its wake time
  changed from 0 to 13.
\<close>

theorem startTimer_full_writes_timeOut_witness:
  "isFull (timer (mk_world 5 [1, 2, 3, 4, 5] 7 period_heap))
   \<and> timeOut (heap (mk_world 5 [1, 2, 3, 4, 5] 7 period_heap) 6) = 0
   \<and> timeOut (heap (startTimer 6 (mk_world 5 [1, 2, 3, 4, 5] 7 period_heap)) 6) = 13
   \<and> timer (startTimer 6 (mk_world 5 [1, 2, 3, 4, 5] 7 period_heap))
        = timer (mk_world 5 [1, 2, 3, 4, 5] 7 period_heap)
   \<and> heap (startTimer 6 (mk_world 5 [1, 2, 3, 4, 5] 7 period_heap))
        \<noteq> heap (mk_world 5 [1, 2, 3, 4, 5] 7 period_heap)"
  using startTimer_full_writes_timeOut [of "mk_world 5 [1, 2, 3, 4, 5] 7 period_heap" 6]
  by (simp add: mk_world_def period_heap_def elem_def isFull_def List_isFull_def MAX_LIST_PTRS_def)

section \<open>The list operations on the stored sequence\<close>

lemma InsertAt_loop_length [simp]: "length (InsertAt_loop index i a) = length a"
  by (induction index i a rule: InsertAt_loop.induct) (subst InsertAt_loop.simps, simp)

lemma InsertAt_loop_nth:
  "i < length a \<Longrightarrow> k < length a \<Longrightarrow>
   InsertAt_loop index i a ! k = (if index < k \<and> k \<le> i then a ! (k - 1) else a ! k)"
proof (induction index i a arbitrary: k rule: InsertAt_loop.induct)
  case (1 index i a)
  show ?case
  proof (cases "i > index")
    case False
    then show ?thesis by (subst InsertAt_loop.simps) simp
  next
    case True
    have "InsertAt_loop index i a ! k = InsertAt_loop index (i - 1) (a[i := a ! (i - 1)]) ! k"
      using True by (subst InsertAt_loop.simps) simp
    also have "\<dots> = (if index < k \<and> k \<le> i - 1 then (a[i := a ! (i - 1)]) ! (k - 1) else (a[i := a ! (i - 1)]) ! k)"
      using 1 True by simp
    also have "\<dots> = (if index < k \<and> k \<le> i then a ! (k - 1) else a ! k)"
      using 1(2,3) True by (auto simp: nth_list_update)
    finally show ?thesis .
  qed
qed

lemma entries_InsertAt:
  assumes "List_ok L" "m_Counter L < MAX_LIST_PTRS" "k \<le> m_Counter L"
  shows "entries (InsertAt k p L) = take k (entries L) @ p # drop k (entries L)"
proof (rule nth_equalityI)
  show "length (entries (InsertAt k p L)) = length (take k (entries L) @ p # drop k (entries L))"
    using assms by (auto simp: entries_def InsertAt_def List_ok_def)
next
  fix j assume "j < length (entries (InsertAt k p L))"
  then have j: "j < m_Counter L + 1" using assms by (auto simp: entries_def InsertAt_def List_ok_def)
  have len: "length (m_ptrList L) = MAX_LIST_PTRS" using assms(1) by (simp add: List_ok_def)
  have lhs: "entries (InsertAt k p L) ! j
             = (if j = k then p else if k < j then m_ptrList L ! (j - 1) else m_ptrList L ! j)"
    using assms j len
    by (simp add: entries_def InsertAt_def nth_list_update InsertAt_loop_nth)
  consider "j < k" | "j = k" | "k < j" by linarith
  then show "entries (InsertAt k p L) ! j = (take k (entries L) @ p # drop k (entries L)) ! j"
  proof cases
    case 1
    then show ?thesis using assms lhs len by (simp add: entries_def nth_append)
  next
    case 2
    then show ?thesis using assms lhs len by (simp add: entries_def nth_append)
  next
    case 3
    then obtain d where d: "j = k + Suc d" using less_iff_Suc_add by auto
    then have "(take k (entries L) @ p # drop k (entries L)) ! j = drop k (entries L) ! d"
      using assms len by (simp add: entries_def nth_append)
    also have "\<dots> = m_ptrList L ! (k + d)"
      using assms j d len by (simp add: entries_def)
    finally show ?thesis using lhs 3 d by simp
  qed
qed

lemma List_ok_InsertAt: "List_ok L \<Longrightarrow> List_ok (InsertAt k p L)"
  by (auto simp: InsertAt_def List_ok_def)

lemma entries_Add:
  assumes "List_ok L" "m_Counter L < MAX_LIST_PTRS"
  shows "entries (Add p L) = entries L @ [p]"
  using assms by (simp add: entries_def Add_def List_ok_def take_Suc_conv_app_nth)

lemma List_ok_Add: "List_ok L \<Longrightarrow> List_ok (Add p L)"
  by (auto simp: Add_def List_ok_def)

lemma Remove_loop_length [simp]: "length (Remove_loop cnt i a) = length a"
  by (induction cnt i a rule: Remove_loop.induct) (subst Remove_loop.simps, simp)

lemma Remove_loop_nth:
  "cnt \<le> length a \<Longrightarrow> k < length a \<Longrightarrow>
   Remove_loop cnt i a ! k = (if i \<le> k \<and> k + 1 < cnt then a ! (k + 1) else a ! k)"
proof (induction cnt i a arbitrary: k rule: Remove_loop.induct)
  case (1 cnt i a)
  show ?case
  proof (cases "int i < int cnt - 1")
    case False
    then show ?thesis by (subst Remove_loop.simps) auto
  next
    case True
    have "Remove_loop cnt i a ! k = Remove_loop cnt (i + 1) (a[i := a ! (i + 1)]) ! k"
      using True by (subst Remove_loop.simps) simp
    also have "\<dots> = (if i + 1 \<le> k \<and> k + 1 < cnt then (a[i := a ! (i + 1)]) ! (k + 1) else (a[i := a ! (i + 1)]) ! k)"
      using 1 True by simp
    also have "\<dots> = (if i \<le> k \<and> k + 1 < cnt then a ! (k + 1) else a ! k)"
      using 1(2,3) True by (auto simp: nth_list_update)
    finally show ?thesis .
  qed
qed

lemma Remove_out_of_range: "m_Counter L \<le> k \<Longrightarrow> Remove k L = L"
  by (subst Remove_def, subst Remove_loop.simps) (simp add: Let_def)

lemma entries_Remove:
  assumes "List_ok L" "k < m_Counter L"
  shows "entries (Remove k L) = take k (entries L) @ drop (Suc k) (entries L)"
proof (rule nth_equalityI)
  show "length (entries (Remove k L)) = length (take k (entries L) @ drop (Suc k) (entries L))"
    using assms by (auto simp: entries_def Remove_def List_ok_def Let_def)
next
  fix j assume "j < length (entries (Remove k L))"
  then have j: "j < m_Counter L - 1" using assms by (auto simp: entries_def Remove_def List_ok_def Let_def)
  then show "entries (Remove k L) ! j = (take k (entries L) @ drop (Suc k) (entries L)) ! j"
    using assms
    by (auto simp: entries_def Remove_def List_ok_def Let_def Remove_loop_nth nth_append min_def)
qed

lemma List_ok_Remove: "List_ok L \<Longrightarrow> List_ok (Remove k L)"
  by (auto simp: Remove_def List_ok_def Let_def)

lemma cancelTimer_loop_spec:
  "List_ok L \<Longrightarrow> i \<le> m_Counter L \<Longrightarrow>
   cancelTimer_loop pTE L i = i + length (takeWhile (\<lambda>q. q \<noteq> pTE) (drop i (entries L)))"
proof (induction pTE L i rule: cancelTimer_loop.induct)
  case (1 pTE L i)
  show ?case
  proof (cases "i < GetCount L")
    case False
    with 1(3) have "i = m_Counter L" by (simp add: GetCount_def)
    then show ?thesis using 1(2) by (subst cancelTimer_loop.simps) (simp add: GetCount_def entries_def List_ok_def)
  next
    case True
    then have len: "i < length (entries L)" using 1(2) by (simp add: entries_def GetCount_def List_ok_def)
    then have dr: "drop i (entries L) = entries L ! i # drop (Suc i) (entries L)"
      by (simp add: Cons_nth_drop_Suc)
    have at: "List_at L i = entries L ! i" using True by (simp add: List_at_def entries_def GetCount_def)
    show ?thesis
    proof (cases "List_at L i = pTE")
      case True
      then show ?thesis using \<open>i < GetCount L\<close> dr at by (subst cancelTimer_loop.simps) simp
    next
      case False
      have "cancelTimer_loop pTE L i = cancelTimer_loop pTE L (i + 1)"
        using True False by (subst cancelTimer_loop.simps) simp
      also have "\<dots> = i + 1 + length (takeWhile (\<lambda>q. q \<noteq> pTE) (drop (i + 1) (entries L)))"
        using 1(1) [OF True False 1(2)] True by (simp add: GetCount_def)
      finally show ?thesis using dr at False by simp
    qed
  qed
qed

lemma remove1_takeWhile: "remove1 p xs = take (length (takeWhile (\<lambda>q. q \<noteq> p) xs)) xs @ drop (Suc (length (takeWhile (\<lambda>q. q \<noteq> p) xs))) xs"
  by (induction xs) auto

lemma takeWhile_neq_less: "p \<in> set xs \<Longrightarrow> length (takeWhile (\<lambda>q. q \<noteq> p) xs) < length xs"
  by (induction xs) auto

lemma takeWhile_notin: "p \<notin> set xs \<Longrightarrow> takeWhile (\<lambda>q. q \<noteq> p) xs = xs"
  by (induction xs) auto

lemma cancelTimer_timer_heap_calls [simp]:
  "heap (cancelTimer p w) = heap w" "calls (cancelTimer p w) = calls w"
  "presentTime (timer (cancelTimer p w)) = presentTime (timer w)"
  by (simp_all add: cancelTimer_def)

lemma pending_cancelTimer:
  assumes "List_ok (timeOutList (timer w))"
  shows "pending (cancelTimer p w) = remove1 p (pending w)"
proof -
  let ?L = "timeOutList (timer w)"
  let ?k = "length (takeWhile (\<lambda>q. q \<noteq> p) (entries ?L))"
  have k: "cancelTimer_loop p ?L 0 = ?k" using cancelTimer_loop_spec [OF assms, of 0 p] by simp
  show ?thesis
  proof (cases "p \<in> set (entries ?L)")
    case True
    then have "?k < length (entries ?L)"
      by (rule takeWhile_neq_less)
    then have "?k < m_Counter ?L" by (simp add: entries_def)
    then show ?thesis using assms k
      by (simp add: pending_def cancelTimer_def entries_Remove remove1_takeWhile [of p "entries ?L"])
  next
    case False
    then have "?k = length (entries ?L)" by (simp add: takeWhile_notin)
    then have "m_Counter ?L \<le> ?k" using assms by (simp add: entries_def List_ok_def)
    then show ?thesis using k False
      by (simp add: pending_def cancelTimer_def Remove_out_of_range remove1_idem)
  qed
qed

lemma cancelTimer_absent:
  assumes "List_ok (timeOutList (timer w))" "p \<notin> set (pending w)"
  shows "cancelTimer p w = w"
proof -
  let ?L = "timeOutList (timer w)"
  have "cancelTimer_loop p ?L 0 = length (entries ?L)"
    using cancelTimer_loop_spec [OF assms(1), of 0 p] assms(2) by (simp add: takeWhile_notin pending_def)
  then have "m_Counter ?L \<le> cancelTimer_loop p ?L 0" using assms(1) by (simp add: entries_def List_ok_def)
  then show ?thesis by (simp add: cancelTimer_def Remove_out_of_range)
qed

lemma List_ok_cancelTimer: "List_ok (timeOutList (timer w)) \<Longrightarrow> List_ok (timeOutList (timer (cancelTimer p w)))"
  by (simp add: cancelTimer_def List_ok_Remove)

section \<open>Timer::cancelTimer of a record that is not pending\<close>

lemma count_list_remove1: "count_list (remove1 p xs) p = count_list xs p - 1"
  by (induction xs) auto

text \<open>
  When the reference is not in the stored sequence, \<open>cancelTimer\<close> returns the state it was
  given: the scan ends at the count, and \<open>Remove\<close> at the count neither shifts nor
  decrements. So a second cancel of a reference that was stored at most once changes nothing:
  the first has removed it.
\<close>

theorem cancelTimer_unregistered_noop:
  assumes "List_ok (timeOutList (timer w))"
  shows "(pTE \<notin> set (pending w) \<longrightarrow>
            cancelTimer pTE w = w
          \<and> getCount (timer (cancelTimer pTE w)) = getCount (timer w)
          \<and> pending (cancelTimer pTE w) = pending w)
       \<and> (count_list (pending w) pTE \<le> 1 \<longrightarrow>
            cancelTimer pTE (cancelTimer pTE w) = cancelTimer pTE w)"
proof -
  have "cancelTimer pTE (cancelTimer pTE w) = cancelTimer pTE w" if "count_list (pending w) pTE \<le> 1"
  proof -
    have "count_list (pending (cancelTimer pTE w)) pTE = 0"
      using that by (simp add: pending_cancelTimer [OF assms] count_list_remove1)
    then have "pTE \<notin> set (pending (cancelTimer pTE w))" by (simp add: count_list_0_iff)
    then show ?thesis by (intro cancelTimer_absent List_ok_cancelTimer assms)
  qed
  then show ?thesis using cancelTimer_absent [OF assms] by auto
qed

text \<open>
  Records 1, 2 and 3 are stored. Cancelling record 4 gives the same state; cancelling record 2
  leaves 1 and 3, and cancelling it again leaves 1 and 3.
\<close>

theorem cancelTimer_unregistered_noop_witness:
  "List_ok (timeOutList (timer (mk_world 3 [1, 2, 3, 0, 0] 0 period_heap)))
   \<and> 4 \<notin> set (pending (mk_world 3 [1, 2, 3, 0, 0] 0 period_heap))
   \<and> cancelTimer 4 (mk_world 3 [1, 2, 3, 0, 0] 0 period_heap) = mk_world 3 [1, 2, 3, 0, 0] 0 period_heap
   \<and> count_list (pending (mk_world 3 [1, 2, 3, 0, 0] 0 period_heap)) 2 \<le> 1
   \<and> pending (cancelTimer 2 (mk_world 3 [1, 2, 3, 0, 0] 0 period_heap)) = [1, 3]
   \<and> pending (cancelTimer 2 (cancelTimer 2 (mk_world 3 [1, 2, 3, 0, 0] 0 period_heap))) = [1, 3]"
  using cancelTimer_unregistered_noop [of "mk_world 3 [1, 2, 3, 0, 0] 0 period_heap" 4]
        cancelTimer_unregistered_noop [of "mk_world 3 [1, 2, 3, 0, 0] 0 period_heap" 2]
  by (simp add: eval_defs)

text \<open>
  C9. The first half of the claim holds: it is the first half of the theorem above. The second
  half, that a second cancel of the same reference changes nothing, fails in a state that the
  operations reach. \<^verbatim>\<open>startTimer\<close> does not look whether the record it is given is pending
  already: called twice on record 10 (period 10) at clock 0, it stores the reference twice.
  The first \<^verbatim>\<open>cancelTimer\<close> removes the first slot only and leaves the record pending, against
  its own comment (remove a specific timer from the list and prevent additional alarms it
  might have caused): ten ticks later the record makes its call. The second \<^verbatim>\<open>cancelTimer\<close>
  is not a no-op: it removes the other slot, and the count goes from 1 to 0.
\<close>

theorem cancelTimer_twice_after_restart:
  "run [Start 10, Start 10] (empty_world [0, 0, 0, 0, 0] period_heap) \<noteq> None
   \<and> pending (the (run [Start 10, Start 10] (empty_world [0, 0, 0, 0, 0] period_heap))) = [10, 10]
   \<and> pending (the (run [Start 10, Start 10, Cancel 10] (empty_world [0, 0, 0, 0, 0] period_heap))) = [10]
   \<and> getCount (timer (the (run [Start 10, Start 10, Cancel 10]
         (empty_world [0, 0, 0, 0, 0] period_heap)))) = 1
   \<and> pending (the (run [Start 10, Start 10, Cancel 10, Cancel 10]
         (empty_world [0, 0, 0, 0, 0] period_heap))) = []
   \<and> getCount (timer (the (run [Start 10, Start 10, Cancel 10, Cancel 10]
         (empty_world [0, 0, 0, 0, 0] period_heap)))) = 0
   \<and> callers_from 0 (the (run [Start 10, Start 10, Cancel 10,
           Tick, Tick, Tick, Tick, Tick, Tick, Tick, Tick, Tick, Tick]
         (empty_world [0, 0, 0, 0, 0] period_heap))) = [10]"
  by (simp add: eval_defs callers_from_def)

section \<open>The sort pass of a tick on the stored sequence\<close>

lemma NextTick_sort_frame:
  "heap (NextTick_sort i w) = heap w \<and> calls (NextTick_sort i w) = calls w
   \<and> presentTime (timer (NextTick_sort i w)) = presentTime (timer w)
   \<and> m_Counter (timeOutList (timer (NextTick_sort i w))) = m_Counter (timeOutList (timer w))
   \<and> length (m_ptrList (timeOutList (timer (NextTick_sort i w)))) = length (m_ptrList (timeOutList (timer w)))"
proof (induction i w rule: NextTick_sort.induct)
  case (1 i w)
  show ?case
  proof (cases "i < GetCount (timeOutList (timer w)) \<and> normalizeTimeOut (timer w) (GET_TIMEOUT w (i - 1))
                 > normalizeTimeOut (timer w) (GET_TIMEOUT w i)")
    case True
    then have "NextTick_sort i w = NextTick_sort (i + 1)
                   (w\<lparr>timer := (timer w)\<lparr>timeOutList := Swap (i - 1) i (timeOutList (timer w))\<rparr>\<rparr>)"
      by (subst NextTick_sort.simps) simp
    then show ?thesis using 1 True by (simp add: Swap_def Let_def)
  next
    case False
    then have "NextTick_sort i w = w" by (subst NextTick_sort.simps) auto
    then show ?thesis by simp
  qed
qed

lemma wakeKey_cong:
  "heap w' = heap w \<Longrightarrow> presentTime (timer w') = presentTime (timer w) \<Longrightarrow> wakeKey w' = wakeKey w"
  by (rule ext) (simp add: wakeKey_def normalizeTimeOut_def)

lemma key_at:
  "i < m_Counter (timeOutList (timer w)) \<Longrightarrow>
   normalizeTimeOut (timer w) (GET_TIMEOUT w i) = wakeKey w (pending w ! i)"
  by (simp add: wakeKey_def GET_TIMEOUT_def pending_def entries_def List_at_def)

lemma pending_Swap:
  assumes "List_ok (timeOutList (timer w))" "i < m_Counter (timeOutList (timer w))" "j < m_Counter (timeOutList (timer w))"
  shows "pending (w\<lparr>timer := (timer w)\<lparr>timeOutList := Swap i j (timeOutList (timer w))\<rparr>\<rparr>)
         = (pending w)[i := pending w ! j, j := pending w ! i]"
  using assms by (simp add: pending_def entries_def Swap_def Let_def List_ok_def take_update_swap)

lemma take_swap_Suc:
  "Suc j < length xs \<Longrightarrow> take (Suc j) (xs[j := a, Suc j := b]) = take j xs @ [a]"
  by (simp add: take_Suc_conv_app_nth)

lemma drop_swap_Suc:
  "drop (Suc (Suc j)) (xs[j := a, Suc j := b]) = drop (Suc (Suc j)) xs"
  by simp

lemma pending_NextTick_sort_Suc:
  "List_ok (timeOutList (timer w)) \<Longrightarrow> i = Suc j \<Longrightarrow> i \<le> m_Counter (timeOutList (timer w)) \<Longrightarrow>
   pending (NextTick_sort i w)
   = take j (pending w) @ bubble (wakeKey w) (pending w ! j) (drop i (pending w))"
proof (induction i w arbitrary: j rule: NextTick_sort.induct)
  case (1 i w)
  let ?L = "timeOutList (timer w)"
  let ?es = "pending w"
  have len: "length ?es = m_Counter ?L" using 1(2) by (simp add: pending_def entries_def List_ok_def)
  have i: "i = Suc j" by fact
  show ?case
  proof (cases "i < GetCount ?L")
    case False
    with 1(4) have il: "i = length ?es" using len by (simp add: GetCount_def)
    have "NextTick_sort i w = w" using False by (subst NextTick_sort.simps) simp
    moreover have "take j ?es @ [?es ! j] = ?es"
      using il i by (simp flip: take_Suc_conv_app_nth)
    ultimately show ?thesis using il by simp
  next
    case True
    then have ilt: "Suc j < length ?es" using len i by (simp add: GetCount_def)
    have dr: "drop (Suc j) ?es = ?es ! Suc j # drop (Suc (Suc j)) ?es"
      using ilt by (simp add: Cons_nth_drop_Suc)
    have k1: "normalizeTimeOut (timer w) (GET_TIMEOUT w (i - 1)) = wakeKey w (?es ! j)"
      using ilt len i by (simp add: key_at)
    have k2: "normalizeTimeOut (timer w) (GET_TIMEOUT w i) = wakeKey w (?es ! Suc j)"
      using ilt len i by (simp add: key_at)
    show ?thesis
    proof (cases "wakeKey w (?es ! j) > wakeKey w (?es ! Suc j)")
      case False
      then have "NextTick_sort i w = w" using k1 k2 by (subst NextTick_sort.simps) simp
      moreover have "take j ?es @ ?es ! j # drop (Suc j) ?es = ?es"
        using ilt by (simp add: id_take_nth_drop [symmetric])
      ultimately show ?thesis using False dr i by simp
    next
      case gt: True
      let ?w' = "w\<lparr>timer := (timer w)\<lparr>timeOutList := Swap (i - 1) i ?L\<rparr>\<rparr>"
      have step: "NextTick_sort i w = NextTick_sort (i + 1) ?w'"
        using True gt k1 k2 by (subst NextTick_sort.simps) simp
      have es': "pending ?w' = ?es[j := ?es ! Suc j, Suc j := ?es ! j]"
        using pending_Swap [OF 1(2), of j "Suc j"] ilt len i by simp
      have ok': "List_ok (timeOutList (timer ?w'))" using 1(2) by (simp add: List_ok_def Swap_def Let_def)
      have cnt': "m_Counter (timeOutList (timer ?w')) = m_Counter ?L" by (simp add: Swap_def Let_def)
      have key': "wakeKey ?w' = wakeKey w" by (intro wakeKey_cong) simp_all
      have c: "normalizeTimeOut (timer w) (GET_TIMEOUT w i) < normalizeTimeOut (timer w) (GET_TIMEOUT w (i - 1))"
        using gt k1 k2 by simp
      have "i + 1 \<le> m_Counter (timeOutList (timer ?w'))" using ilt len i cnt' by simp
      from 1(1) [OF True c ok' _ this, of i]
      have IH: "pending (NextTick_sort (i + 1) ?w')
                = take i (pending ?w') @ bubble (wakeKey ?w') (pending ?w' ! i) (drop (i + 1) (pending ?w'))"
        by simp
      have "take (Suc j) (pending ?w') = take j ?es @ [?es ! Suc j]"
        using ilt by (simp only: es' take_swap_Suc)
      then have t: "take i (pending ?w') = take j ?es @ [?es ! Suc j]" using i by simp
      have "pending ?w' ! Suc j = ?es ! j" using ilt by (simp only: es') simp
      then have n: "pending ?w' ! i = ?es ! j" using i by simp
      have "drop (Suc (Suc j)) (pending ?w') = drop (Suc (Suc j)) ?es"
        by (simp only: es' drop_swap_Suc)
      then have d: "drop (i + 1) (pending ?w') = drop (Suc (Suc j)) ?es" using i by simp
      show ?thesis unfolding step IH t n d key' using gt dr i by simp
    qed
  qed
qed

lemma pending_NextTick_sort_1:
  assumes "List_ok (timeOutList (timer w))" "pending w = x # xs"
  shows "pending (NextTick_sort 1 w) = bubble (wakeKey w) x xs"
proof -
  have "1 \<le> m_Counter (timeOutList (timer w))"
    using assms by (cases "m_Counter (timeOutList (timer w))") (auto simp: pending_def entries_def)
  from pending_NextTick_sort_Suc [OF assms(1) _ this, of 0] show ?thesis
    using assms(2) by simp
qed

section \<open>The loop of a tick\<close>

lemma mset_bubble: "mset (bubble k x ys) = add_mset x (mset ys)"
  by (induction ys) auto

lemma set_bubble: "set (bubble k x ys) = insert x (set ys)"
  by (induction ys) auto

lemma length_bubble: "length (bubble k x ys) = Suc (length ys)"
  by (induction ys) auto

lemma distinct_bubble: "distinct (bubble k x ys) = distinct (x # ys)"
  by (induction ys) (auto simp: set_bubble)

lemma bubble_takeWhile:
  "bubble k x ys = takeWhile (\<lambda>y. k x > k y) ys @ x # dropWhile (\<lambda>y. k x > k y) ys"
  by (induction ys) auto

lemma filter_bubble: "\<not> P x \<Longrightarrow> filter P (bubble k x ys) = filter P ys"
  by (induction ys) auto

lemma sorted_bubble:
  "sorted (map k ys) \<Longrightarrow> sorted (map k (bubble k x ys))"
proof (induction ys)
  case Nil
  then show ?case by simp
next
  case (Cons y ys)
  show ?case
  proof (cases "k x > k y")
    case True
    have "\<forall>z \<in> set (bubble k x ys). k y \<le> k z"
      using Cons.prems True by (auto simp: set_bubble)
    then show ?thesis using Cons True by simp
  next
    case False
    then have "k x \<le> k y" by simp
    moreover have "\<forall>z \<in> set ys. k y \<le> k z" using Cons.prems by simp
    ultimately show ?thesis using Cons.prems False by auto
  qed
qed

lemma NextTick_while_partial:
  assumes "NextTick_while w = Some w'" and "I w"
    and step: "\<And>w. I w \<Longrightarrow> presentTime (timer w) = GET_TIMEOUT w 0 \<Longrightarrow> I (NextTick_body w)"
  shows "I w' \<and> presentTime (timer w') \<noteq> GET_TIMEOUT w' 0"
proof -
  let ?P = "\<lambda>w w'. I w \<longrightarrow> I w' \<and> presentTime (timer w') \<noteq> GET_TIMEOUT w' 0"
  have "?P w w'"
  proof (rule NextTick_while.raw_induct [where P = ?P, OF _ assms(1)])
    fix f :: "world \<Rightarrow> world option" and v v'
    assume IH: "\<And>x y. f x = Some y \<Longrightarrow> ?P x y"
      and eq: "(if presentTime (timer v) = GET_TIMEOUT v 0 then f (NextTick_body v) else Some v) = Some v'"
    show "?P v v'"
    proof (cases "presentTime (timer v) = GET_TIMEOUT v 0")
      case True
      with eq have "f (NextTick_body v) = Some v'" by simp
      then have "?P (NextTick_body v) v'" by (rule IH)
      with step [OF _ True] show ?thesis by simp
    next
      case False
      with eq have "v' = v" by simp
      with False show ?thesis by simp
    qed
  qed
  with assms(2) show ?thesis by simp
qed

text \<open>One pass of the loop body, field by field.\<close>

lemma NextTick_body_calls:
  "calls (NextTick_body w) =
     calls w @ [(List_at (timeOutList (timer w)) 0,
                 (heap w (List_at (timeOutList (timer w)) 0))\<lparr>timeOut :=
                    (timePeriod (heap w (List_at (timeOutList (timer w)) 0))
                     + timeOut (heap w (List_at (timeOutList (timer w)) 0))) AND 0x7fff\<rparr>)]"
  by (simp add: NextTick_body_def Let_def NextTick_sort_frame clockAlarm_def callFunction_def updateTimeOut_def)

lemma NextTick_body_heap:
  "heap (NextTick_body w) =
     (if repeats (heap w (List_at (timeOutList (timer w)) 0)) \<noteq> 0
      then (heap w)(List_at (timeOutList (timer w)) 0 :=
        (heap w (List_at (timeOutList (timer w)) 0))
          \<lparr>timeOut := (timePeriod (heap w (List_at (timeOutList (timer w)) 0))
                       + timeOut (heap w (List_at (timeOutList (timer w)) 0))) AND 0x7fff,
           repeats := repeats (heap w (List_at (timeOutList (timer w)) 0)) - 1\<rparr>)
      else (heap w)(List_at (timeOutList (timer w)) 0 :=
        (heap w (List_at (timeOutList (timer w)) 0))
          \<lparr>timeOut := (timePeriod (heap w (List_at (timeOutList (timer w)) 0))
                       + timeOut (heap w (List_at (timeOutList (timer w)) 0))) AND 0x7fff\<rparr>))"
  by (simp add: NextTick_body_def Let_def NextTick_sort_frame clockAlarm_def callFunction_def updateTimeOut_def)

lemma NextTick_body_timeOut:
  "timeOut (heap (NextTick_body w) p) =
     (if p = List_at (timeOutList (timer w)) 0
      then (timePeriod (heap w p) + timeOut (heap w p)) AND 0x7fff
      else timeOut (heap w p))"
  by (simp add: NextTick_body_heap)

lemma NextTick_body_timePeriod:
  "timePeriod (heap (NextTick_body w) p) = timePeriod (heap w p)"
  by (simp add: NextTick_body_heap)

lemma NextTick_body_frame:
  "presentTime (timer (NextTick_body w)) = presentTime (timer w)
   \<and> m_Counter (timeOutList (timer (NextTick_body w))) = m_Counter (timeOutList (timer w))
   \<and> length (m_ptrList (timeOutList (timer (NextTick_body w)))) = length (m_ptrList (timeOutList (timer w)))"
  by (simp add: NextTick_body_def Let_def NextTick_sort_frame clockAlarm_def callFunction_def updateTimeOut_def)

lemma List_ok_NextTick_body:
  "List_ok (timeOutList (timer w)) \<Longrightarrow> List_ok (timeOutList (timer (NextTick_body w)))"
  using NextTick_body_frame [of w] by (simp add: List_ok_def)

lemma head_at: "pending w = x # xs \<Longrightarrow> List_at (timeOutList (timer w)) 0 = x"
  by (cases "m_Counter (timeOutList (timer w))"; cases "m_ptrList (timeOutList (timer w))")
     (auto simp: pending_def entries_def List_at_def)

lemma pending_NextTick_body:
  assumes "List_ok (timeOutList (timer w))" "pending w = x # xs"
  shows "pending (NextTick_body w) = bubble (wakeKey (NextTick_body w)) x xs"
proof -
  let ?w1 = "updateTimeOut (List_at (timeOutList (timer w)) 0) w"
  let ?w2 = "snd (clockAlarm (List_at (timeOutList (timer ?w1)) 0) ?w1)"
  have t2: "timer ?w2 = timer w"
    by (simp add: clockAlarm_def callFunction_def updateTimeOut_def Let_def)
  then have p2: "pending ?w2 = x # xs" "List_ok (timeOutList (timer ?w2))"
    using assms by (simp_all add: pending_def)
  have b: "NextTick_body w = NextTick_sort 1 ?w2" by (simp add: NextTick_body_def Let_def)
  have "wakeKey (NextTick_sort 1 ?w2) = wakeKey ?w2"
    by (intro wakeKey_cong) (simp_all add: NextTick_sort_frame)
  then show ?thesis unfolding b using pending_NextTick_sort_1 [OF p2(2) p2(1)] by simp
qed

lemma mset_pending_NextTick_body:
  assumes "List_ok (timeOutList (timer w))" "0 < m_Counter (timeOutList (timer w))"
  shows "mset (pending (NextTick_body w)) = mset (pending w)"
proof -
  have "pending w \<noteq> []" using assms by (auto simp: pending_def entries_def List_ok_def)
  then obtain x xs where "pending w = x # xs" by (cases "pending w") auto
  then show ?thesis using pending_NextTick_body [OF assms(1)] by (simp add: mset_bubble)
qed

lemma int_mod_cancel: "(a + b) mod m = b mod m \<Longrightarrow> a mod m = (0::int)"

  by algebra

lemma rearm_neq:
  assumes "t \<le> (0x7FFF::16 word)" "p AND 0x7FFF \<noteq> 0"
  shows "(p + t) AND 0x7FFF \<noteq> t"
proof
  assume eq: "(p + t) AND 0x7FFF = t"
  have "(uint p + uint t) mod 0x8000 = uint t" using eq uint_add_and_7fff [of p t] by simp
  moreover have "uint t mod 0x8000 = uint t" using uint_le_7fff [OF assms(1)] uint_ge_0 [of t] by (intro mod_pos_pos_trivial) simp_all
  ultimately have "(uint p + uint t) mod 0x8000 = uint t mod 0x8000" by simp
  then have "uint p mod 0x8000 = 0" by (rule int_mod_cancel)
  then have "uint (p AND 0x7FFF) = 0" by (simp add: and_7fff_uint)
  then have "p AND 0x7FFF = 0" by (simp add: uint_0_iff)
  with assms(2) show False by simp
qed

lemma filter_length_mono:
  "(\<And>y. y \<in> set xs \<Longrightarrow> Q y \<Longrightarrow> P y) \<Longrightarrow> length (filter Q xs) \<le> length (filter P xs)"
  by (induction xs) auto

lemma filter_length_less:
  assumes "x \<in> set xs" "P x" "\<not> Q x" "\<And>y. y \<in> set xs \<Longrightarrow> Q y \<Longrightarrow> P y"
  shows "length (filter Q xs) < length (filter P xs)"
  using assms
proof (induction xs)
  case Nil then show ?case by simp
next
  case (Cons y ys)
  show ?case
  proof (cases "x = y")
    case True
    have "length (filter Q ys) \<le> length (filter P ys)"
      using Cons.prems(4) by (intro filter_length_mono) auto
    then show ?thesis using True Cons.prems by simp
  next
    case False
    then have "length (filter Q ys) < length (filter P ys)" using Cons by auto
    then show ?thesis using Cons.prems(4) [of y] by auto
  qed
qed

lemma filter_length_mset: "mset ys = mset xs \<Longrightarrow> length (filter Q ys) = length (filter Q xs)"
  by (metis mset_filter size_mset)

lemma loop_test_due:
  "pending w = x # xs \<Longrightarrow> (presentTime (timer w) = GET_TIMEOUT w 0) = due w x"
  by (simp add: due_def GET_TIMEOUT_def head_at)

lemma due_NextTick_body:
  assumes "tick_ok w" "pending w = x # xs" "due w x"
  shows "\<not> due (NextTick_body w) x"
    and "q \<noteq> x \<Longrightarrow> due (NextTick_body w) q = due w q"
proof -
  have hx: "List_at (timeOutList (timer w)) 0 = x" using assms(2) by (rule head_at)
  have t: "timeOut (heap w x) \<le> 0x7FFF" and tc: "timeOut (heap w x) = presentTime (timer w)"
    using assms by (simp_all add: due_def tick_ok_def getTimeOut_def)
  have "timePeriod (heap w x) AND 0x7FFF \<noteq> 0" using assms(1,2) by (simp add: tick_ok_def)
  from rearm_neq [OF t this] show "\<not> due (NextTick_body w) x"
    using tc by (simp add: due_def getTimeOut_def NextTick_body_timeOut hx NextTick_body_frame)
  show "q \<noteq> x \<Longrightarrow> due (NextTick_body w) q = due w q"
    by (simp add: due_def getTimeOut_def NextTick_body_timeOut hx NextTick_body_frame)
qed

lemma due_count_decreases:
  assumes "tick_ok w" "pending w = x # xs" "due w x"
  shows "length (filter (due (NextTick_body w)) (pending (NextTick_body w)))
         < length (filter (due w) (pending w))"
proof -
  have ok: "List_ok (timeOutList (timer w))" using assms(1) by (simp add: tick_ok_def)
  have "mset (pending (NextTick_body w)) = mset (pending w)"
    using pending_NextTick_body [OF ok assms(2)] assms(2) by (simp add: mset_bubble)
  then have "length (filter (due (NextTick_body w)) (pending (NextTick_body w)))
             = length (filter (due (NextTick_body w)) (pending w))"
    by (rule filter_length_mset)
  also have "\<dots> < length (filter (due w) (pending w))"
  proof (rule filter_length_less [where x = x])
    show "x \<in> set (pending w)" using assms(2) by simp
    show "due w x" by fact
    show "\<not> due (NextTick_body w) x" using assms by (rule due_NextTick_body(1))
    fix y assume "due (NextTick_body w) y"
    then show "due w y"
      using due_NextTick_body(2) [OF assms, of y] assms(3) by (cases "y = x") auto
  qed
  finally show ?thesis .
qed

lemma tick_ok_NextTick_body:
  assumes "tick_ok w" "pending w \<noteq> []"
  shows "tick_ok (NextTick_body w)" and "pending (NextTick_body w) \<noteq> []"
proof -
  obtain x xs where p: "pending w = x # xs" using assms(2) by (cases "pending w") auto
  have ok: "List_ok (timeOutList (timer w))" using assms(1) by (simp add: tick_ok_def)
  have s: "set (pending (NextTick_body w)) = set (pending w)"
    using pending_NextTick_body [OF ok p] p by (simp add: set_bubble)
  show "tick_ok (NextTick_body w)"
    using assms(1) s by (simp add: tick_ok_def List_ok_NextTick_body NextTick_body_frame NextTick_body_timePeriod)
  show "pending (NextTick_body w) \<noteq> []" using s p by auto
qed

lemma NextTick_while_total:
  assumes "I w"
    and ok: "\<And>v. I v \<Longrightarrow> tick_ok v \<and> pending v \<noteq> []"
    and step: "\<And>v. I v \<Longrightarrow> presentTime (timer v) = GET_TIMEOUT v 0 \<Longrightarrow> I (NextTick_body v)"
  shows "\<exists>w'. NextTick_while w = Some w' \<and> I w' \<and> presentTime (timer w') \<noteq> GET_TIMEOUT w' 0"
  using assms(1)
proof (induction "length (filter (due w) (pending w))" arbitrary: w rule: less_induct)
  case less
  show ?case
  proof (cases "presentTime (timer w) = GET_TIMEOUT w 0")
    case False
    then have "NextTick_while w = Some w" by (subst NextTick_while.simps) simp
    with False less.prems show ?thesis by simp
  next
    case True
    obtain x xs where p: "pending w = x # xs" using ok [OF less.prems] by (cases "pending w") auto
    have d: "due w x" using True loop_test_due [OF p] by simp
    have "length (filter (due (NextTick_body w)) (pending (NextTick_body w)))
          < length (filter (due w) (pending w))"
      using ok [OF less.prems] p d by (intro due_count_decreases) simp_all
    from less.hyps [OF this step [OF less.prems True]]
    obtain w' where "NextTick_while (NextTick_body w) = Some w'" "I w'"
      "presentTime (timer w') \<noteq> GET_TIMEOUT w' 0" by blast
    moreover have "NextTick_while w = NextTick_while (NextTick_body w)"
      using True by (subst NextTick_while.simps) simp
    ultimately show ?thesis by simp
  qed
qed

lemma NextTick_alt:
  "NextTick w = (if pending w = [] \<and> List_ok (timeOutList (timer w)) then Some (tick_clock w)
                 else if m_Counter (timeOutList (timer w)) = 0 then Some (tick_clock w) else NextTick_while (tick_clock w))"
  by (auto simp: NextTick_def tick_clock_def Let_def getCount_def GetCount_def pending_def entries_def List_ok_def)

section \<open>Timer::NextTick removes nothing\<close>

lemma pending_tick_clock [simp]: "pending (tick_clock w) = pending w"
  by (simp add: pending_def tick_clock_def)

lemma tick_clock_frame [simp]:
  "heap (tick_clock w) = heap w" "calls (tick_clock w) = calls w"
  "timeOutList (timer (tick_clock w)) = timeOutList (timer w)"
  "presentTime (timer (tick_clock w)) = (presentTime (timer w) + 1) AND 0x7fff"
  by (simp_all add: tick_clock_def)

lemma NextTick_nonempty:
  "0 < m_Counter (timeOutList (timer w)) \<Longrightarrow> NextTick w = NextTick_while (tick_clock w)"
  by (simp add: NextTick_def tick_clock_def Let_def getCount_def GetCount_def)

lemma NextTick_empty:
  "m_Counter (timeOutList (timer w)) = 0 \<Longrightarrow> NextTick w = Some (tick_clock w)"
  by (simp add: NextTick_def tick_clock_def Let_def getCount_def GetCount_def)

lemma pending_nonempty:
  "List_ok (timeOutList (timer w)) \<Longrightarrow> (pending w \<noteq> []) = (0 < m_Counter (timeOutList (timer w)))"
  by (auto simp: pending_def entries_def List_ok_def MAX_LIST_PTRS_def)

lemma length_pending:
  "List_ok (timeOutList (timer w)) \<Longrightarrow> length (pending w) = m_Counter (timeOutList (timer w))"
  by (auto simp: pending_def entries_def List_ok_def)

lemma tick_ok_tick_clock:
  assumes "List_ok (timeOutList (timer w))"
    and "\<forall>p \<in> set (pending w). timePeriod (heap w p) AND 0x7FFF \<noteq> 0"
  shows "tick_ok (tick_clock w)"
  using assms by (simp add: tick_ok_def and_7fff_le)

text \<open>
  C5. A tick that returns leaves the count as it was and the stored references the same, as
  a multiset: the loop only swaps slots, and the flag that \<open>clockAlarm\<close> returns is not
  read. The tick does return when no pending period is a multiple of \<open>0x8000\<close>.
\<close>

theorem NextTick_keeps_every_record:
  assumes "List_ok (timeOutList (timer w))"
  shows "(\<forall>w'. NextTick w = Some w' \<longrightarrow>
            getCount (timer w') = getCount (timer w) \<and> mset (pending w') = mset (pending w))
       \<and> ((\<forall>p \<in> set (pending w). timePeriod (heap w p) AND 0x7FFF \<noteq> 0) \<longrightarrow> NextTick w \<noteq> None)"
proof (cases "m_Counter (timeOutList (timer w)) = 0")
  case True
  then show ?thesis by (simp add: NextTick_empty getCount_def GetCount_def)
next
  case False
  then have ne: "0 < m_Counter (timeOutList (timer w))" by simp
  let ?I = "\<lambda>v. List_ok (timeOutList (timer v))
              \<and> m_Counter (timeOutList (timer v)) = m_Counter (timeOutList (timer w))
              \<and> mset (pending v) = mset (pending w)"
  have I0: "?I (tick_clock w)" using assms by simp
  have Istep: "?I (NextTick_body v)" if "?I v" for v
    using that ne by (simp add: List_ok_NextTick_body NextTick_body_frame mset_pending_NextTick_body)
  have frame: "getCount (timer w') = getCount (timer w) \<and> mset (pending w') = mset (pending w)"
    if "NextTick w = Some w'" for w'
  proof -
    from that have "NextTick_while (tick_clock w) = Some w'" using ne by (simp add: NextTick_nonempty)
    from NextTick_while_partial [of _ _ ?I, OF this I0 Istep]
    show ?thesis by (simp add: getCount_def GetCount_def)
  qed
  have "NextTick w \<noteq> None" if per: "\<forall>p \<in> set (pending w). timePeriod (heap w p) AND 0x7FFF \<noteq> 0"
  proof -
    let ?J = "\<lambda>v. tick_ok v \<and> pending v \<noteq> []"
    have "?J (tick_clock w)"
      using tick_ok_tick_clock [OF assms per] ne assms by (simp add: pending_nonempty)
    from NextTick_while_total [of ?J, OF this]
    obtain w' where "NextTick_while (tick_clock w) = Some w'"
      using tick_ok_NextTick_body by blast
    then show ?thesis using ne by (simp add: NextTick_nonempty)
  qed
  with frame show ?thesis by blast
qed

text \<open>
  Record 1 is due at 100 with \<open>repeats = 1\<close>: the tick fires it, \<open>clockAlarm\<close> returns false,
  and the record stays in the list with \<open>repeats = 0\<close>, re-armed for 110 behind record 2.
\<close>

theorem NextTick_keeps_every_record_witness:
  "List_ok (timeOutList (timer (mk_world 2 [1, 2, 0, 0, 0] 99 ((due_heap 100 1)(2 := elem 105 10 0)))))
   \<and> NextTick (mk_world 2 [1, 2, 0, 0, 0] 99 ((due_heap 100 1)(2 := elem 105 10 0))) \<noteq> None
   \<and> calls (the (NextTick (mk_world 2 [1, 2, 0, 0, 0] 99 ((due_heap 100 1)(2 := elem 105 10 0)))))
       = [(1, elem 110 10 1)]
   \<and> fst (clockAlarm 1 (updateTimeOut 1 (tick_clock (mk_world 2 [1, 2, 0, 0, 0] 99 ((due_heap 100 1)(2 := elem 105 10 0)))))) = False
   \<and> heap (the (NextTick (mk_world 2 [1, 2, 0, 0, 0] 99 ((due_heap 100 1)(2 := elem 105 10 0))))) 1
       = elem 110 10 0
   \<and> getCount (timer (the (NextTick (mk_world 2 [1, 2, 0, 0, 0] 99 ((due_heap 100 1)(2 := elem 105 10 0)))))) = 2
   \<and> pending (the (NextTick (mk_world 2 [1, 2, 0, 0, 0] 99 ((due_heap 100 1)(2 := elem 105 10 0))))) = [2, 1]"
  using NextTick_keeps_every_record [of "mk_world 2 [1, 2, 0, 0, 0] 99 ((due_heap 100 1)(2 := elem 105 10 0))"]
  by (simp add: eval_defs)

lemma rearm_same:
  assumes "t \<le> (0x7FFF::16 word)" "p AND 0x7FFF = 0"
  shows "(p + t) AND 0x7FFF = t"
proof -
  have "uint p mod 0x8000 = 0" using assms(2) and_7fff_uint [of p] by simp
  then have "(uint p + uint t) mod 0x8000 = uint t mod 0x8000"
    by (metis add.commute add.right_neutral mod_add_right_eq)
  also have "\<dots> = uint t"
    using uint_le_7fff [OF assms(1)] uint_ge_0 [of t] by (intro mod_pos_pos_trivial) simp_all
  finally have "uint ((p + t) AND 0x7FFF) = uint t" by (simp add: uint_add_and_7fff)
  then show ?thesis by (rule word_uint_eqI)
qed

lemma norm_ge_clock:
  assumes "presentTime T \<le> 0x7FFF"
  shows "presentTime T \<le> normalizeTimeOut T t"
proof (cases "presentTime T > t")
  case True
  have "(0x8000::16 word) \<le> t OR 0x8000" by (rule le_word_or1)
  moreover have "presentTime T \<le> 0x8000" using assms by (simp add: word_le_def)
  ultimately show ?thesis using True by (simp add: normalizeTimeOut_def)
next
  case False
  then show ?thesis by (simp add: normalizeTimeOut_def)
qed

lemma norm_clock: "normalizeTimeOut T (presentTime T) = presentTime T"
  by (simp add: normalizeTimeOut_def)

lemma bubble_least:
  assumes "\<And>y. y \<in> set ys \<Longrightarrow> k x \<le> k y"
  shows "bubble k x ys = x # ys"
proof (cases ys)
  case Nil then show ?thesis by simp
next
  case (Cons a list)
  then have "k x \<le> k a" using assms by simp
  then have "\<not> k a < k x" by (simp add: not_less)
  then show ?thesis using Cons by simp
qed

text \<open>A due head whose period is a multiple of \<open>0x8000\<close>: the loop never leaves it.\<close>

lemma stuck_NextTick_body:
  assumes "stuck w" shows "stuck (NextTick_body w)"
proof -
  obtain x xs where p: "pending w = x # xs" using assms by (cases "pending w") (auto simp: stuck_def)
  have ok: "List_ok (timeOutList (timer w))" and c: "presentTime (timer w) \<le> 0x7FFF"
    and z: "timePeriod (heap w x) AND 0x7FFF = 0"
    using assms p by (simp_all add: stuck_def)
  have "due w x" using assms p by (simp add: stuck_def)
  then have d: "timeOut (heap w x) = presentTime (timer w)" by (simp add: due_def getTimeOut_def)
  have hx: "List_at (timeOutList (timer w)) 0 = x" using p by (rule head_at)
  have t': "timeOut (heap (NextTick_body w) x) = presentTime (timer w)"
    using rearm_same [of "presentTime (timer w)" "timePeriod (heap w x)"] c z
    by (simp add: NextTick_body_timeOut hx d)
  have "wakeKey (NextTick_body w) x = presentTime (timer w)"
    using t' by (simp add: wakeKey_def getTimeOut_def NextTick_body_frame normalizeTimeOut_def)
  moreover have "presentTime (timer w) \<le> wakeKey (NextTick_body w) y" for y
    using norm_ge_clock [of "timer (NextTick_body w)"] c by (simp add: wakeKey_def NextTick_body_frame)
  ultimately have "bubble (wakeKey (NextTick_body w)) x xs = x # xs"
    by (intro bubble_least) simp
  then have p': "pending (NextTick_body w) = x # xs" using pending_NextTick_body [OF ok p] by simp
  show ?thesis
    using ok c p' t' z
    by (simp add: stuck_def List_ok_NextTick_body NextTick_body_frame due_def getTimeOut_def NextTick_body_timePeriod)
qed

lemma NextTick_while_stuck:
  assumes "stuck w" shows "NextTick_while w = None"
proof (cases "NextTick_while w")
  case None then show ?thesis .
next
  case (Some w')
  have step: "stuck (NextTick_body v)" if "stuck v" for v using that by (rule stuck_NextTick_body)
  from NextTick_while_partial [of _ _ stuck, OF Some assms step]
  have s: "stuck w'" and n: "presentTime (timer w') \<noteq> GET_TIMEOUT w' 0" by simp_all
  obtain x xs where p: "pending w' = x # xs" using s by (cases "pending w'") (auto simp: stuck_def)
  from s p have "due w' x" by (simp add: stuck_def)
  with loop_test_due [OF p] n show ?thesis by simp
qed

section \<open>Timer::NextTick on a due head\<close>

text \<open>
  The periods that the specification allows, greater than 0 (section 3) and at most \<open>0x4000\<close>
  (section 4.3), are not multiples of \<open>0x8000\<close>; nor is any other period from 1 to \<open>0x7FFF\<close>,
  the default of the constructor of \<^verbatim>\<open>timeElement\<close>.
\<close>

lemma spec_period_not_multiple:
  assumes "0 < p" "p \<le> (0x7FFF::16 word)"
  shows "p AND 0x7FFF \<noteq> 0"
proof -
  have "uint p \<le> 0x7FFF" using assms(2) by (rule uint_le_7fff)
  then have "uint p mod 0x8000 = uint p" using uint_ge_0 [of p] by (intro mod_pos_pos_trivial) simp_all
  then have "uint (p AND 0x7FFF) = uint p" by (simp add: and_7fff_uint)
  then have "p AND 0x7FFF = p" by (rule word_uint_eqI)
  with assms(1) show ?thesis by simp
qed

text \<open>One pass of the loop on a due head: the head is no longer due, the others are as before.\<close>

lemma head_rearmed_not_due:
  assumes "presentTime (timer w) \<le> 0x7FFF"
    and "due w (List_at (timeOutList (timer w)) 0)"
    and "timePeriod (heap w (List_at (timeOutList (timer w)) 0)) AND 0x7FFF \<noteq> 0"
  shows "\<not> due (NextTick_body w) (List_at (timeOutList (timer w)) 0)"
proof -
  let ?x = "List_at (timeOutList (timer w)) 0"
  have tc: "timeOut (heap w ?x) = presentTime (timer w)"
    using assms(2) by (simp add: due_def getTimeOut_def)
  then have t: "timeOut (heap w ?x) \<le> 0x7FFF" using assms(1) by simp
  from rearm_neq [OF t assms(3)] show ?thesis
    using tc by (simp add: due_def getTimeOut_def NextTick_body_timeOut NextTick_body_frame)
qed

lemma other_due_unchanged:
  "q \<noteq> List_at (timeOutList (timer w)) 0 \<Longrightarrow> due (NextTick_body w) q = due w q"
  by (simp add: due_def getTimeOut_def NextTick_body_timeOut NextTick_body_frame)

text \<open>
  The loop ends when every pending record that is due has a period that is not a multiple of
  \<open>0x8000\<close>: each pass takes one slot out of the due ones.
\<close>

lemma NextTick_while_returns:
  assumes "List_ok (timeOutList (timer w))" "presentTime (timer w) \<le> 0x7FFF" "pending w \<noteq> []"
    and "\<forall>p \<in> set (pending w). due w p \<longrightarrow> timePeriod (heap w p) AND 0x7FFF \<noteq> 0"
  shows "\<exists>w'. NextTick_while w = Some w'"
  using assms
proof (induction "length (filter (due w) (pending w))" arbitrary: w rule: less_induct)
  case less
  show ?case
  proof (cases "presentTime (timer w) = GET_TIMEOUT w 0")
    case False
    then have "NextTick_while w = Some w" by (subst NextTick_while.simps) simp
    then show ?thesis by simp
  next
    case True
    let ?b = "NextTick_body w"
    obtain x xs where p: "pending w = x # xs" using less.prems(3) by (cases "pending w") auto
    have hx: "List_at (timeOutList (timer w)) 0 = x" using p by (rule head_at)
    have d: "due w x" using True loop_test_due [OF p] by simp
    have px: "timePeriod (heap w x) AND 0x7FFF \<noteq> 0" using less.prems(4) p d by simp
    have ndx: "\<not> due ?b x" using head_rearmed_not_due [of w] less.prems(2) d px hx by simp
    have oth: "due ?b q = due w q" if "q \<noteq> x" for q using other_due_unchanged [of q w] that hx by simp
    have ms: "mset (pending ?b) = mset (pending w)"
      using pending_NextTick_body [OF less.prems(1) p] p by (simp add: mset_bubble)
    then have st: "set (pending ?b) = set (pending w)" by (rule mset_eq_setD)
    have "length (filter (due ?b) (pending ?b)) = length (filter (due ?b) (pending w))"
      using ms by (rule filter_length_mset)
    also have "\<dots> < length (filter (due w) (pending w))"
    proof (rule filter_length_less [where x = x])
      show "x \<in> set (pending w)" using p by simp
      show "due w x" by fact
      show "\<not> due ?b x" by fact
      fix y assume "due ?b y"
      then show "due w y" using oth [of y] d by (cases "y = x") auto
    qed
    finally have m: "length (filter (due ?b) (pending ?b)) < length (filter (due w) (pending w))" .
    have a1: "List_ok (timeOutList (timer ?b))" using less.prems(1) by (rule List_ok_NextTick_body)
    have a2: "presentTime (timer ?b) \<le> 0x7FFF" using less.prems(2) by (simp add: NextTick_body_frame)
    have a3: "pending ?b \<noteq> []" using st p by auto
    have a4: "\<forall>q \<in> set (pending ?b). due ?b q \<longrightarrow> timePeriod (heap ?b q) AND 0x7FFF \<noteq> 0"
    proof (intro ballI impI)
      fix q assume q: "q \<in> set (pending ?b)" and dq: "due ?b q"
      from dq ndx have "q \<noteq> x" by auto
      then have "due w q" using oth dq by simp
      moreover have "q \<in> set (pending w)" using q st by simp
      ultimately show "timePeriod (heap ?b q) AND 0x7FFF \<noteq> 0"
        using less.prems(4) by (simp add: NextTick_body_timePeriod)
    qed
    from less.hyps [OF m a1 a2 a3 a4] obtain w' where "NextTick_while ?b = Some w'" by blast
    moreover have "NextTick_while w = NextTick_while ?b"
      using True by (subst NextTick_while.simps) simp
    ultimately show ?thesis by simp
  qed
qed

text \<open>The state in which the loop ends is the state after some number of passes.\<close>

lemma NextTick_while_passes:
  assumes "NextTick_while w = Some w'"
  shows "\<exists>n. NextTick_passes n w = w'"
proof -
  let ?P = "\<lambda>w w'. \<exists>n. NextTick_passes n w = w'"
  show ?thesis
  proof (rule NextTick_while.raw_induct [where P = ?P, OF _ assms])
    fix f :: "world \<Rightarrow> world option" and v v'
    assume IH: "\<And>x y. f x = Some y \<Longrightarrow> ?P x y"
      and eq: "(if presentTime (timer v) = GET_TIMEOUT v 0 then f (NextTick_body v) else Some v) = Some v'"
    show "?P v v'"
    proof (cases "presentTime (timer v) = GET_TIMEOUT v 0")
      case True
      with eq have "f (NextTick_body v) = Some v'" by simp
      then obtain n where "NextTick_passes n (NextTick_body v) = v'" using IH by blast
      then have "NextTick_passes (Suc n) v = v'" using True by simp
      then show ?thesis by blast
    next
      case False
      with eq have "NextTick_passes 0 v = v'" by simp
      then show ?thesis by blast
    qed
  qed
qed

text \<open>
  C3. The clock is \<open>c\<close> after the increment of the tick (100 in the specification's example),
  the head record \<open>p0\<close> has wake time \<open>c\<close>, and the period of \<open>p0\<close> is not a multiple of
  \<open>0x8000\<close>, as is every period that the specification allows (\<open>spec_period_not_multiple\<close>).
  Then the first call of the tick is the one of \<open>p0\<close>, made with the wake time of \<open>p0\<close> already
  advanced to \<open>(c + period) mod 0x8000\<close> and its \<open>repeats\<close> not yet decremented, and no later
  call of that tick is made by \<open>p0\<close>: so it is after any number of passes of the loop, and
  so it is in the state in which the tick returns. The tick does return when every pending
  record that is due at \<open>c\<close> has such a period; nothing is asked of the records that are not due.
\<close>

theorem NextTick_fires_due_head_once:
  assumes ok: "List_ok (timeOutList (timer w))"
    and ne: "0 < getCount (timer w)"
    and clk: "(presentTime (timer w) + 1) AND 0x7fff = c"
    and hd: "GET_TIMEOUT w 0 = c"
    and p0: "p0 = List_at (timeOutList (timer w)) 0"
    and per: "timePeriod (heap w p0) AND 0x7FFF \<noteq> 0"
  shows "(\<forall>n. \<exists>rest. calls (NextTick_passes (Suc n) (tick_clock w))
              = calls w @ (p0, (heap w p0)\<lparr>timeOut := (timePeriod (heap w p0) + c) AND 0x7fff\<rparr>) # rest
            \<and> p0 \<notin> fst ` set rest)
       \<and> (\<forall>w'. NextTick w = Some w' \<longrightarrow>
            (\<exists>rest. calls w'
              = calls w @ (p0, (heap w p0)\<lparr>timeOut := (timePeriod (heap w p0) + c) AND 0x7fff\<rparr>) # rest
            \<and> p0 \<notin> fst ` set rest))
       \<and> ((\<forall>p \<in> set (pending w). timeOut (heap w p) = c \<longrightarrow> timePeriod (heap w p) AND 0x7FFF \<noteq> 0)
            \<longrightarrow> NextTick w \<noteq> None)
       \<and> uint ((timePeriod (heap w p0) + c) AND 0x7fff) = (uint c + uint (timePeriod (heap w p0))) mod 0x8000"
proof -
  let ?w1 = "tick_clock w"
  let ?wb = "NextTick_body ?w1"
  let ?fired = "(p0, (heap w p0)\<lparr>timeOut := (timePeriod (heap w p0) + c) AND 0x7fff\<rparr>)"
  have cnt: "0 < m_Counter (timeOutList (timer w))" using ne by (simp add: getCount_def GetCount_def)
  have c1: "presentTime (timer ?w1) = c" using clk by simp
  have cle: "c \<le> 0x7FFF" using clk and_7fff_le by auto
  have h1: "List_at (timeOutList (timer ?w1)) 0 = p0" using p0 by simp
  have d1: "due ?w1 p0" using hd clk p0 by (simp add: due_def GET_TIMEOUT_def)
  have test1: "presentTime (timer ?w1) = GET_TIMEOUT ?w1 0"
    using hd clk by (simp add: GET_TIMEOUT_def)
  have cb: "calls ?wb = calls w @ [?fired]"
    using hd p0 by (simp add: NextTick_body_calls GET_TIMEOUT_def getTimeOut_def)
  have nd: "\<not> due ?wb p0"
    using head_rearmed_not_due [of ?w1] c1 cle d1 per h1 by simp
  let ?J = "\<lambda>v. presentTime (timer v) = c \<and> timeOut (heap v p0) \<noteq> c
              \<and> (\<exists>rest. calls v = calls w @ ?fired # rest \<and> p0 \<notin> fst ` set rest)"
  have J0: "?J ?wb"
    using nd cb c1 by (simp add: due_def getTimeOut_def NextTick_body_frame)
  have Jstep: "?J (NextTick_body v)" if J: "?J v" and test: "presentTime (timer v) = GET_TIMEOUT v 0" for v
  proof -
    let ?y = "List_at (timeOutList (timer v)) 0"
    have "timeOut (heap v ?y) = c" using J test by (simp add: GET_TIMEOUT_def getTimeOut_def)
    then have y: "?y \<noteq> p0" using J by auto
    obtain rest where r: "calls v = calls w @ ?fired # rest" "p0 \<notin> fst ` set rest" using J by blast
    have "\<exists>rest'. calls (NextTick_body v) = calls w @ ?fired # rest' \<and> p0 \<notin> fst ` set rest'"
      using r y by (simp add: NextTick_body_calls)
    moreover have "timeOut (heap (NextTick_body v) p0) \<noteq> c"
      using J y by (simp add: NextTick_body_timeOut)
    ultimately show ?thesis using J by (simp add: NextTick_body_frame)
  qed
  have Jpass: "?J (NextTick_passes n v)" if "?J v" for n v
    using that
  proof (induction n arbitrary: v)
    case 0
    then show ?case by simp
  next
    case (Suc n)
    show ?case
    proof (cases "presentTime (timer v) = GET_TIMEOUT v 0")
      case True
      have "?J (NextTick_body v)" using Suc.prems True by (rule Jstep)
      then have "?J (NextTick_passes n (NextTick_body v))" by (rule Suc.IH)
      then show ?thesis using True by simp
    next
      case False
      then show ?thesis using Suc.prems by simp
    qed
  qed
  have A: "\<exists>rest. calls (NextTick_passes (Suc n) ?w1) = calls w @ ?fired # rest \<and> p0 \<notin> fst ` set rest" for n
  proof -
    have "NextTick_passes (Suc n) ?w1 = NextTick_passes n ?wb" using test1 by simp
    then show ?thesis using Jpass [OF J0, of n] by simp
  qed
  have nt: "NextTick w = NextTick_while ?wb"
  proof -
    have "NextTick w = NextTick_while ?w1" using cnt by (rule NextTick_nonempty)
    also have "\<dots> = NextTick_while ?wb" using test1 by (subst NextTick_while.simps) simp
    finally show ?thesis .
  qed
  have B: "\<exists>rest. calls w' = calls w @ ?fired # rest \<and> p0 \<notin> fst ` set rest" if "NextTick w = Some w'" for w'
  proof -
    from that nt have "NextTick_while ?wb = Some w'" by simp
    from NextTick_while_partial [of _ _ ?J, OF this J0 Jstep] show ?thesis by simp
  qed
  have C: "NextTick w \<noteq> None"
    if due_per: "\<forall>p \<in> set (pending w). timeOut (heap w p) = c \<longrightarrow> timePeriod (heap w p) AND 0x7FFF \<noteq> 0"
  proof -
    have "pending ?w1 \<noteq> []" using cnt ok by (simp add: pending_nonempty)
    moreover have "\<forall>p \<in> set (pending ?w1). due ?w1 p \<longrightarrow> timePeriod (heap ?w1 p) AND 0x7FFF \<noteq> 0"
      using due_per clk by (auto simp: due_def getTimeOut_def)
    moreover have "List_ok (timeOutList (timer ?w1))" using ok by simp
    moreover have "presentTime (timer ?w1) \<le> 0x7FFF" using c1 cle by simp
    ultimately obtain w' where "NextTick_while ?w1 = Some w'"
      using NextTick_while_returns [of ?w1] by blast
    then show ?thesis using cnt by (simp add: NextTick_nonempty)
  qed
  have u: "uint ((timePeriod (heap w p0) + c) AND 0x7fff) = (uint c + uint (timePeriod (heap w p0))) mod 0x8000"
    by (simp add: uint_add_and_7fff add.commute)
  from A B C u show ?thesis by blast
qed

text \<open>
  Two states with the clock at 99 and record 1 at the head, due at 100 with period 7. In the
  first, record 2 is due at 100 too, with period 7: the tick calls for each once, record 1
  first. In the second, record 2 has period \<open>0x8000\<close> and is due at 105: the tick calls for
  record 1 once and returns.
\<close>

theorem NextTick_fires_due_head_once_witness:
  "List_ok (timeOutList (timer (mk_world 2 [1, 2, 0, 0, 0] 99 (const_heap (elem 100 7 3)))))
   \<and> 0 < getCount (timer (mk_world 2 [1, 2, 0, 0, 0] 99 (const_heap (elem 100 7 3))))
   \<and> (presentTime (timer (mk_world 2 [1, 2, 0, 0, 0] 99 (const_heap (elem 100 7 3)))) + 1) AND 0x7fff = 100
   \<and> GET_TIMEOUT (mk_world 2 [1, 2, 0, 0, 0] 99 (const_heap (elem 100 7 3))) 0 = 100
   \<and> List_at (timeOutList (timer (mk_world 2 [1, 2, 0, 0, 0] 99 (const_heap (elem 100 7 3))))) 0 = 1
   \<and> timePeriod (heap (mk_world 2 [1, 2, 0, 0, 0] 99 (const_heap (elem 100 7 3))) 1) AND 0x7FFF \<noteq> 0
   \<and> NextTick (mk_world 2 [1, 2, 0, 0, 0] 99 (const_heap (elem 100 7 3))) \<noteq> None
   \<and> calls (the (NextTick (mk_world 2 [1, 2, 0, 0, 0] 99 (const_heap (elem 100 7 3)))))
        = [(1, elem 107 7 3), (2, elem 107 7 3)]
   \<and> GET_TIMEOUT (mk_world 2 [1, 2, 0, 0, 0] 99 ((const_heap (elem 100 7 3))(2 := elem 105 0x8000 0))) 0 = 100
   \<and> timePeriod (heap (mk_world 2 [1, 2, 0, 0, 0] 99 ((const_heap (elem 100 7 3))(2 := elem 105 0x8000 0))) 2)
        AND 0x7FFF = 0
   \<and> NextTick (mk_world 2 [1, 2, 0, 0, 0] 99 ((const_heap (elem 100 7 3))(2 := elem 105 0x8000 0))) \<noteq> None
   \<and> calls (the (NextTick (mk_world 2 [1, 2, 0, 0, 0] 99 ((const_heap (elem 100 7 3))(2 := elem 105 0x8000 0)))))
        = [(1, elem 107 7 3)]"
  using NextTick_fires_due_head_once [of "mk_world 2 [1, 2, 0, 0, 0] 99 (const_heap (elem 100 7 3))" 100 1]
        NextTick_fires_due_head_once [of "mk_world 2 [1, 2, 0, 0, 0] 99 ((const_heap (elem 100 7 3))(2 := elem 105 0x8000 0))" 100 1]
  by (simp add: eval_defs)

text \<open>
  Record 2 is due at 100 as well, with period \<open>0x8000\<close>: once it is the head the loop does not
  leave it and the tick does not return. Record 1 has called once all the same: after three
  passes the calls are those of record 1, record 2 and record 2.
\<close>

lemma head_fires_once_in_endless_tick:
  "NextTick (mk_world 2 [1, 2, 0, 0, 0] 99 ((const_heap (elem 100 7 3))(2 := elem 100 0x8000 0))) = None
   \<and> calls (NextTick_passes (Suc (Suc (Suc 0)))
        (tick_clock (mk_world 2 [1, 2, 0, 0, 0] 99 ((const_heap (elem 100 7 3))(2 := elem 100 0x8000 0)))))
      = [(1, elem 107 7 3), (2, elem 100 0x8000 0), (2, elem 100 0x8000 0)]"
proof -
  let ?w = "mk_world 2 [1, 2, 0, 0, 0] 99 ((const_heap (elem 100 7 3))(2 := elem 100 0x8000 0))"
  have s: "stuck (NextTick_body (tick_clock ?w))"
    by (simp add: stuck_def due_def eval_defs)
  have t: "presentTime (timer (tick_clock ?w)) = GET_TIMEOUT (tick_clock ?w) 0"
    by (simp add: eval_defs)
  have "NextTick ?w = NextTick_while (tick_clock ?w)"
    by (rule NextTick_nonempty) (simp add: mk_world_def)
  also have "\<dots> = NextTick_while (NextTick_body (tick_clock ?w))"
    using t by (subst NextTick_while.simps) simp
  also have "\<dots> = None" using s by (rule NextTick_while_stuck)
  finally have "NextTick ?w = None" .
  moreover have "calls (NextTick_passes (Suc (Suc (Suc 0))) (tick_clock ?w))
      = [(1, elem 107 7 3), (2, elem 100 0x8000 0), (2, elem 100 0x8000 0)]"
    by (simp add: eval_defs)
  ultimately show ?thesis by blast
qed

text \<open>
  A head period of \<open>0x8000\<close>, which the specification does not allow. The clock is 100 after
  the increment and the head record wakes at 100; \<open>updateTimeOut\<close> gives
  \<open>(0x8000 + 100) AND 0x7fff = 100\<close> again, so after two passes of the loop the record has
  made two calls and the test of the loop still holds: the tick does not return.
\<close>

lemma NextTick_period_0x8000_fires_again:
  "(presentTime (timer (mk_world 1 [1, 0, 0, 0, 0] 99 (const_heap (elem 100 0x8000 0)))) + 1) AND 0x7fff = 100
   \<and> GET_TIMEOUT (mk_world 1 [1, 0, 0, 0, 0] 99 (const_heap (elem 100 0x8000 0))) 0 = 100
   \<and> NextTick (mk_world 1 [1, 0, 0, 0, 0] 99 (const_heap (elem 100 0x8000 0))) = None
   \<and> calls (NextTick_body (NextTick_body (tick_clock (mk_world 1 [1, 0, 0, 0, 0] 99 (const_heap (elem 100 0x8000 0))))))
        = [(1, elem 100 0x8000 0), (1, elem 100 0x8000 0)]
   \<and> presentTime (timer (NextTick_body (NextTick_body (tick_clock (mk_world 1 [1, 0, 0, 0, 0] 99 (const_heap (elem 100 0x8000 0)))))))
        = GET_TIMEOUT (NextTick_body (NextTick_body (tick_clock (mk_world 1 [1, 0, 0, 0, 0] 99 (const_heap (elem 100 0x8000 0)))))) 0"
proof -
  let ?w = "mk_world 1 [1, 0, 0, 0, 0] 99 (const_heap (elem 100 0x8000 0))"
  have "stuck (tick_clock ?w)"
    by (simp add: stuck_def due_def eval_defs)
  then have "NextTick_while (tick_clock ?w) = None" by (rule NextTick_while_stuck)
  moreover have "NextTick ?w = NextTick_while (tick_clock ?w)"
    by (rule NextTick_nonempty) (simp add: mk_world_def)
  ultimately have "NextTick ?w = None" by simp
  moreover have "(presentTime (timer ?w) + 1) AND 0x7fff = 100" by (simp add: mk_world_def)
  moreover have "GET_TIMEOUT ?w 0 = 100"
    by (simp add: mk_world_def GET_TIMEOUT_def List_at_def getTimeOut_def const_heap_def elem_def)
  moreover have "calls (NextTick_body (NextTick_body (tick_clock ?w))) = [(1, elem 100 0x8000 0), (1, elem 100 0x8000 0)]"
    by (simp add: eval_defs)
  moreover have "presentTime (timer (NextTick_body (NextTick_body (tick_clock ?w))))
        = GET_TIMEOUT (NextTick_body (NextTick_body (tick_clock ?w))) 0"
    by (simp add: eval_defs)
  ultimately show ?thesis by blast
qed

section \<open>Timer::startTimer on the stored sequence\<close>

lemma Search_loop_takeWhile:
  "List_ok (timeOutList (timer w)) \<Longrightarrow> i \<le> m_Counter (timeOutList (timer w)) \<Longrightarrow>
   Search_loop pArg w i
   = i + length (takeWhile (\<lambda>q. \<not> wakeKey w pArg < wakeKey w q) (drop i (pending w)))"
proof (induction pArg w i rule: Search_loop.induct)
  case (1 pArg w i)
  let ?L = "timeOutList (timer w)"
  have len: "length (pending w) = m_Counter ?L" using 1(2) by (rule length_pending)
  show ?case
  proof (cases "i < GetCount ?L")
    case False
    with 1(3) have "i = m_Counter ?L" by (simp add: GetCount_def)
    then show ?thesis using False len by (subst Search_loop.simps) simp
  next
    case True
    then have ilt: "i < length (pending w)" using len by (simp add: GetCount_def)
    then have dr: "drop i (pending w) = pending w ! i # drop (Suc i) (pending w)"
      by (simp add: Cons_nth_drop_Suc)
    have k: "normalizeTimeOut (timer w) (GET_TIMEOUT w i) = wakeKey w (pending w ! i)"
      using ilt len by (simp add: key_at)
    have kp: "normalizeTimeOut (timer w) (getTimeOut (heap w pArg)) = wakeKey w pArg"
      by (simp add: wakeKey_def)
    show ?thesis
    proof (cases "wakeKey w pArg < wakeKey w (pending w ! i)")
      case lt: True
      then show ?thesis using True dr k kp by (subst Search_loop.simps) simp
    next
      case False
      have c: "\<not> normalizeTimeOut (timer w) (getTimeOut (heap w pArg))
                 < normalizeTimeOut (timer w) (GET_TIMEOUT w i)"
        using False k kp by simp
      have "Search_loop pArg w i = Search_loop pArg w (i + 1)"
        using True c by (subst Search_loop.simps) simp
      also have "\<dots> = i + 1 + length (takeWhile (\<lambda>q. \<not> wakeKey w pArg < wakeKey w q) (drop (i + 1) (pending w)))"
        using 1(1) [OF True c 1(2)] ilt len by simp
      finally show ?thesis using dr False by simp
    qed
  qed
qed

lemma Search_takeWhile:
  assumes "List_ok (timeOutList (timer w))"
  shows "Search pArg w = length (takeWhile (\<lambda>q. \<not> wakeKey w pArg < wakeKey w q) (pending w))"
proof (cases "0 = GetCount (timeOutList (timer w))")
  case True
  then have "pending w = []" by (simp add: pending_def entries_def GetCount_def)
  with True show ?thesis by (simp add: Search_def)
next
  case False
  then show ?thesis using Search_loop_takeWhile [OF assms, of 0 pArg] by (simp add: Search_def)
qed

lemma take_drop_takeWhile:
  "take (length (takeWhile P xs)) xs = takeWhile P xs"
  "drop (length (takeWhile P xs)) xs = dropWhile P xs"
  by (induction xs) auto

text \<open>The state in which \<open>startTimer\<close> searches: the record's wake time is set.\<close>

lemma startTimer_frame:
  "presentTime (timer (startTimer p w)) = presentTime (timer w)"
  "calls (startTimer p w) = calls w"
  by (simp_all add: startTimer_def InsertTimer_def)

lemma List_ok_startTimer:
  "List_ok (timeOutList (timer w)) \<Longrightarrow> List_ok (timeOutList (timer (startTimer p w)))"
  by (simp add: startTimer_def InsertTimer_def List_ok_InsertAt List_ok_Add)

lemma wakeKey_startTimer:
  "wakeKey (startTimer p w) q
   = normalizeTimeOut (timer w)
       (if q = p then (presentTime (timer w) + timePeriod (heap w p)) AND 0x7FFF
        else timeOut (heap w q))"
  by (simp add: wakeKey_def startTimer_heap getTimeOut_def normalizeTimeOut_def startTimer_frame)

lemma pending_startTimer:
  assumes ok: "List_ok (timeOutList (timer w))" and nf: "\<not> isFull (timer w)"
  shows "pending (startTimer p w)
         = takeWhile (\<lambda>q. \<not> wakeKey (startTimer p w) p < wakeKey (startTimer p w) q) (pending w)
           @ p # dropWhile (\<lambda>q. \<not> wakeKey (startTimer p w) p < wakeKey (startTimer p w) q) (pending w)"
proof -
  let ?w0 = "w\<lparr>heap := (heap w)(p := setTimeOut (presentTime (timer w) + getTimePeriod (heap w p)) (heap w p))\<rparr>"
  let ?L = "timeOutList (timer w)"
  have key: "wakeKey (startTimer p w) = wakeKey ?w0"
    by (intro wakeKey_cong) (simp_all add: startTimer_def InsertTimer_def)
  have p0: "pending ?w0 = pending w" by (simp add: pending_def)
  have ok0: "List_ok (timeOutList (timer ?w0))" using ok by simp
  have lt: "m_Counter ?L < MAX_LIST_PTRS"
    using ok nf by (simp add: List_ok_def isFull_def List_isFull_def)
  show ?thesis
  proof (cases "GetCount ?L > 0")
    case True
    let ?k = "Search p ?w0"
    have k: "?k = length (takeWhile (\<lambda>q. \<not> wakeKey ?w0 p < wakeKey ?w0 q) (pending w))"
      using Search_takeWhile [OF ok0, of p] p0 by simp
    then have "?k \<le> length (pending w)" by (simp add: length_takeWhile_le)
    then have kle: "?k \<le> m_Counter ?L" using length_pending [OF ok] by simp
    have "pending (startTimer p w) = entries (InsertAt ?k p ?L)"
      using True by (simp add: startTimer_def InsertTimer_def pending_def)
    also have "\<dots> = take ?k (pending w) @ p # drop ?k (pending w)"
      using entries_InsertAt [OF ok lt kle] by (simp add: pending_def)
    finally show ?thesis unfolding key k by (simp add: take_drop_takeWhile)
  next
    case False
    then have e: "pending w = []" by (simp add: pending_def entries_def GetCount_def)
    have "pending (startTimer p w) = entries (Add p ?L)"
      using False by (simp add: startTimer_def InsertTimer_def pending_def)
    also have "\<dots> = pending w @ [p]" using entries_Add [OF ok lt] by (simp add: pending_def)
    finally show ?thesis using e by simp
  qed
qed

lemma pending_startTimer_full:
  "isFull (timer w) \<Longrightarrow> pending (startTimer p w) = pending w"
  by (simp add: pending_def startTimer_full_timer)

lemma sorted_insert_after:
  "sorted (map k xs) \<Longrightarrow>
   sorted (map k (takeWhile (\<lambda>q. \<not> k p < k q) xs @ p # dropWhile (\<lambda>q. \<not> k p < k q) xs))"
  for k :: "'a \<Rightarrow> uint16_t"
proof (induction xs)
  case Nil then show ?case by simp
next
  case (Cons x xs)
  show ?case
  proof (cases "k p < k x")
    case True
    then have "\<forall>y \<in> set xs. k p \<le> k y" using Cons.prems by auto
    then show ?thesis using True Cons.prems by auto
  next
    case False
    let ?rest = "takeWhile (\<lambda>q. \<not> k p < k q) xs @ p # dropWhile (\<lambda>q. \<not> k p < k q) xs"
    have "k x \<le> k y" if "y \<in> set ?rest" for y
    proof -
      from that have "y = p \<or> y \<in> set xs"
        using set_takeWhileD [of y _ xs] set_dropWhileD [of y _ xs] by auto
      then show "k x \<le> k y" using False Cons.prems by auto
    qed
    then have "\<forall>z \<in> set (map k ?rest). k x \<le> z" by auto
    moreover have "sorted (map k ?rest)" using Cons by simp
    ultimately have "sorted (map k (x # ?rest))" by (simp del: map_append)
    then show ?thesis using False by simp
  qed
qed

section \<open>The comparison when the clock advances\<close>

lemma tick_shift:
  assumes "0 \<le> t" "t \<le> 0x7FFF" "0 \<le> c" "c \<le> 0x7FFF" "t \<noteq> c"
  shows "(t - (c + 1) mod 0x8000) mod 0x8000 = (t - c) mod 0x8000 - (1::int)"
proof -
  have "(t - (c + 1) mod 0x8000) mod 0x8000 = (t - (c + 1)) mod 0x8000"
    by (simp add: mod_diff_right_eq)
  also have "\<dots> = ((t - c) mod 0x8000 - 1) mod 0x8000"
    by (simp add: mod_diff_left_eq algebra_simps)
  also have "\<dots> = (t - c) mod 0x8000 - 1"
  proof (cases "c \<le> t")
    case True
    then have "(t - c) mod 0x8000 = t - c" using assms by (intro mod_8000_pos) simp_all
    then show ?thesis using True assms by (simp add: mod_pos_pos_trivial)
  next
    case False
    then have "(t - c) mod 0x8000 = t - c + 0x8000" using assms by (intro mod_8000_neg) simp_all
    then show ?thesis using False assms by (simp add: mod_pos_pos_trivial)
  qed
  finally show ?thesis .
qed

lemma norm_tick:
  assumes c: "presentTime T \<le> 0x7FFF" and t: "t \<le> 0x7FFF" and ne: "t \<noteq> presentTime T"
    and T': "presentTime T' = (presentTime T + 1) AND 0x7FFF"
  shows "uint (normalizeTimeOut T' t) + uint (presentTime T) + 1
         = uint (normalizeTimeOut T t) + uint (presentTime T')"
proof -
  have c': "presentTime T' \<le> 0x7FFF" unfolding T' by (rule and_7fff_le)
  have u: "uint (presentTime T') = (uint (presentTime T) + 1) mod 0x8000"
    unfolding T' using uint_add_and_7fff [of "presentTime T" 1] by simp
  have "uint t \<noteq> uint (presentTime T)" using ne by (simp add: word_uint_eq_iff)
  then have "(uint t - uint (presentTime T')) mod 0x8000 = (uint t - uint (presentTime T)) mod 0x8000 - 1"
    unfolding u using uint_le_7fff [OF c] uint_le_7fff [OF t]
    by (intro tick_shift) simp_all
  then show ?thesis using norm_uint [OF c t] norm_uint [OF c' t] by simp
qed

lemma norm_tick_le:
  assumes "presentTime T \<le> 0x7FFF" "t1 \<le> 0x7FFF" "t2 \<le> 0x7FFF"
    "t1 \<noteq> presentTime T" "t2 \<noteq> presentTime T"
    "presentTime T' = (presentTime T + 1) AND 0x7FFF"
    "normalizeTimeOut T t1 \<le> normalizeTimeOut T t2"
  shows "normalizeTimeOut T' t1 \<le> normalizeTimeOut T' t2"
  using norm_tick [OF assms(1,2,4,6)] norm_tick [OF assms(1,3,5,6)] assms(7)
  by (simp add: word_le_def)

lemma sorted_map_transfer:
  "sorted (map f xs) \<Longrightarrow> (\<And>x y. x \<in> set xs \<Longrightarrow> y \<in> set xs \<Longrightarrow> f x \<le> f y \<Longrightarrow> g x \<le> g y)
   \<Longrightarrow> sorted (map g xs)"
  for f g :: "'a \<Rightarrow> uint16_t"
  by (induction xs) auto

lemma norm_eq_clock:
  assumes "presentTime T \<le> 0x7FFF" "normalizeTimeOut T t = presentTime T"
  shows "t = presentTime T"
proof (cases "presentTime T > t")
  case True
  have "(0x8000::16 word) \<le> t OR 0x8000" by (rule le_word_or1)
  moreover have "presentTime T < 0x8000" using assms(1) by (simp add: word_le_def word_less_def)
  ultimately show ?thesis using True assms(2) by (simp add: normalizeTimeOut_def)
next
  case False
  then show ?thesis using assms(2) by (simp add: normalizeTimeOut_def)
qed

section \<open>The scheduler invariant under startTimer and cancelTimer\<close>

lemma sched_invD:
  assumes "sched_inv w"
  shows "tick_ok w" "List_ok (timeOutList (timer w))" "presentTime (timer w) \<le> 0x7FFF"
    "distinct (pending w)" "sorted (map (wakeKey w) (pending w))"
    "\<And>p. p \<in> set (pending w) \<Longrightarrow> timeOut (heap w p) \<le> 0x7FFF"
    "\<And>p. p \<in> set (pending w) \<Longrightarrow> timePeriod (heap w p) AND 0x7FFF \<noteq> 0"
  using assms by (simp_all add: sched_inv_def tick_ok_def)

lemma sched_invI:
  assumes "List_ok (timeOutList (timer w))" "presentTime (timer w) \<le> 0x7FFF"
    "distinct (pending w)" "sorted (map (wakeKey w) (pending w))"
    "\<And>p. p \<in> set (pending w) \<Longrightarrow> timeOut (heap w p) \<le> 0x7FFF"
    "\<And>p. p \<in> set (pending w) \<Longrightarrow> timePeriod (heap w p) AND 0x7FFF \<noteq> 0"
  shows "sched_inv w"
  using assms by (simp add: sched_inv_def tick_ok_def)

lemma idle_invD:
  assumes "idle_inv w"
  shows "sched_inv w" "\<And>p. p \<in> set (pending w) \<Longrightarrow> \<not> due w p"
  using assms by (simp_all add: idle_inv_def)

lemma idle_inv_empty_world:
  assumes "length raw = MAX_LIST_PTRS"
  shows "idle_inv (empty_world raw h)"
  using assms
  by (simp add: idle_inv_def sched_inv_def tick_ok_def empty_world_def Timer_ctor_def List_ctor_def
                List_ok_def pending_def entries_def)

lemma sched_inv_pending_sorted:
  assumes "sched_inv w" shows "pending_sorted w"
proof -
  have len: "length (pending w) = m_Counter (timeOutList (timer w))"
    using sched_invD(2) [OF assms] by (rule length_pending)
  have "\<not> normalizeTimeOut (timer w) (GET_TIMEOUT w (i - 1)) > normalizeTimeOut (timer w) (GET_TIMEOUT w i)"
    if "1 \<le> i" "i < getCount (timer w)" for i
  proof -
    have i: "i < length (pending w)" using that len by (simp add: getCount_def GetCount_def)
    have "map (wakeKey w) (pending w) ! (i - 1) \<le> map (wakeKey w) (pending w) ! i"
      using sched_invD(5) [OF assms] i by (intro sorted_nth_mono) simp_all
    then have "wakeKey w (pending w ! (i - 1)) \<le> wakeKey w (pending w ! i)" using i by simp
    then show ?thesis using i len by (simp add: key_at not_less)
  qed
  then show ?thesis by (simp add: pending_sorted_def)
qed

lemma idle_inv_cancelTimer:
  assumes "idle_inv w" shows "idle_inv (cancelTimer p w)"
proof -
  note s = idle_invD(1) [OF assms]
  have pe: "pending (cancelTimer p w) = remove1 p (pending w)"
    using sched_invD(2) [OF s] by (rule pending_cancelTimer)
  have sub: "q \<in> set (pending w)" if "q \<in> set (pending (cancelTimer p w))" for q
    using that notin_set_remove1 [of q "pending w" p] unfolding pe by blast
  have key: "wakeKey (cancelTimer p w) = wakeKey w" by (intro wakeKey_cong) simp_all
  have "sched_inv (cancelTimer p w)"
  proof (rule sched_invI)
    show "List_ok (timeOutList (timer (cancelTimer p w)))"
      using sched_invD(2) [OF s] by (rule List_ok_cancelTimer)
    show "presentTime (timer (cancelTimer p w)) \<le> 0x7FFF" using sched_invD(3) [OF s] by simp
    show "distinct (pending (cancelTimer p w))" using sched_invD(4) [OF s] by (simp add: pe)
    show "sorted (map (wakeKey (cancelTimer p w)) (pending (cancelTimer p w)))"
      unfolding key pe using sched_invD(5) [OF s] by (rule sorted_map_remove1)
    show "timeOut (heap (cancelTimer p w) q) \<le> 0x7FFF" if "q \<in> set (pending (cancelTimer p w))" for q
      using sched_invD(6) [OF s sub [OF that]] by simp
    show "timePeriod (heap (cancelTimer p w) q) AND 0x7FFF \<noteq> 0" if "q \<in> set (pending (cancelTimer p w))" for q
      using sched_invD(7) [OF s sub [OF that]] by simp
  qed
  moreover have "\<not> due (cancelTimer p w) q" if "q \<in> set (pending (cancelTimer p w))" for q
    using idle_invD(2) [OF assms sub [OF that]] by (simp add: due_def)
  ultimately show ?thesis by (simp add: idle_inv_def)
qed

lemma distinct_insert_between:
  "distinct xs \<Longrightarrow> p \<notin> set xs \<Longrightarrow> distinct (takeWhile f xs @ p # dropWhile f xs)"
  by (induction xs) (auto dest: set_takeWhileD set_dropWhileD)

lemma idle_inv_startTimer:
  assumes inv: "idle_inv w" and new: "p \<notin> set (pending w)"
    and per: "timePeriod (heap w p) AND 0x7FFF \<noteq> 0"
  shows "idle_inv (startTimer p w)"
proof -
  let ?w' = "startTimer p w"
  note s = idle_invD(1) [OF inv]
  note ok = sched_invD(2) [OF s]
  note c = sched_invD(3) [OF s]
  let ?f = "\<lambda>q. \<not> wakeKey ?w' p < wakeKey ?w' q"
  have old: "heap ?w' q = heap w q" if "q \<in> set (pending w)" for q
    using that new by (auto simp: startTimer_heap)
  have keyold: "wakeKey ?w' q = wakeKey w q" if "q \<in> set (pending w)" for q
    using old [OF that] by (simp add: wakeKey_def getTimeOut_def normalizeTimeOut_def startTimer_frame)
  have tp: "timeOut (heap ?w' p) = (presentTime (timer w) + timePeriod (heap w p)) AND 0x7FFF"
    by (simp add: startTimer_heap)
  have pp: "timePeriod (heap ?w' p) = timePeriod (heap w p)" by (simp add: startTimer_heap)
  have ndp: "\<not> due ?w' p"
    using rearm_neq [OF c per] by (simp add: due_def getTimeOut_def tp startTimer_frame add.commute)
  have mem: "q \<in> set (pending ?w') \<Longrightarrow> q = p \<or> q \<in> set (pending w)" for q
  proof (cases "isFull (timer w)")
    case True
    assume "q \<in> set (pending ?w')" then show ?thesis using True by (simp add: pending_startTimer_full)
  next
    case False
    assume "q \<in> set (pending ?w')"
    then have "q \<in> set (takeWhile ?f (pending w)) \<or> q = p \<or> q \<in> set (dropWhile ?f (pending w))"
      unfolding pending_startTimer [OF ok False, of p] by auto
    then show ?thesis using set_takeWhileD [of q ?f "pending w"] set_dropWhileD [of q ?f "pending w"] by blast
  qed
  have srt: "sorted (map (wakeKey ?w') (pending w))"
    using sched_invD(5) [OF s] keyold by (simp cong: map_cong)
  have "sched_inv ?w'"
  proof (rule sched_invI)
    show "List_ok (timeOutList (timer ?w'))" using ok by (rule List_ok_startTimer)
    show "presentTime (timer ?w') \<le> 0x7FFF" using c by (simp add: startTimer_frame)
    show "distinct (pending ?w')"
    proof (cases "isFull (timer w)")
      case True then show ?thesis using sched_invD(4) [OF s] by (simp add: pending_startTimer_full)
    next
      case False
      show ?thesis unfolding pending_startTimer [OF ok False, of p]
        using sched_invD(4) [OF s] new by (rule distinct_insert_between)
    qed
    show "sorted (map (wakeKey ?w') (pending ?w'))"
    proof (cases "isFull (timer w)")
      case True then show ?thesis using srt by (simp add: pending_startTimer_full)
    next
      case False
      show ?thesis unfolding pending_startTimer [OF ok False, of p]
        using srt by (rule sorted_insert_after)
    qed
    show "timeOut (heap ?w' q) \<le> 0x7FFF" if "q \<in> set (pending ?w')" for q
      using mem [OF that] sched_invD(6) [OF s] old tp and_7fff_le by (cases "q = p") auto
    show "timePeriod (heap ?w' q) AND 0x7FFF \<noteq> 0" if "q \<in> set (pending ?w')" for q
      using mem [OF that] sched_invD(7) [OF s] old pp per by (cases "q = p") auto
  qed
  moreover have "\<not> due ?w' q" if "q \<in> set (pending ?w')" for q
  proof (cases "q = p")
    case True then show ?thesis using ndp by simp
  next
    case False
    then have q: "q \<in> set (pending w)" using mem [OF that] by simp
    then show ?thesis using idle_invD(2) [OF inv q] old [OF q] by (simp add: due_def startTimer_frame)
  qed
  ultimately show ?thesis by (simp add: idle_inv_def)
qed

section \<open>The scheduler invariant under a tick\<close>

lemma wakeKey_tick_clock_le:
  assumes inv: "idle_inv w" and p: "p \<in> set (pending w)" and q: "q \<in> set (pending w)"
    and le: "wakeKey w p \<le> wakeKey w q"
  shows "wakeKey (tick_clock w) p \<le> wakeKey (tick_clock w) q"
proof -
  note s = idle_invD(1) [OF inv]
  have np: "timeOut (heap w p) \<noteq> presentTime (timer w)"
    and nq: "timeOut (heap w q) \<noteq> presentTime (timer w)"
    using idle_invD(2) [OF inv p] idle_invD(2) [OF inv q] by (auto simp: due_def getTimeOut_def)
  have le': "normalizeTimeOut (timer w) (timeOut (heap w p)) \<le> normalizeTimeOut (timer w) (timeOut (heap w q))"
    using le by (simp add: wakeKey_def getTimeOut_def)
  have T': "presentTime (timer (tick_clock w)) = (presentTime (timer w) + 1) AND 0x7FFF" by simp
  have "normalizeTimeOut (timer (tick_clock w)) (timeOut (heap w p))
        \<le> normalizeTimeOut (timer (tick_clock w)) (timeOut (heap w q))"
    by (rule norm_tick_le [OF sched_invD(3) [OF s] sched_invD(6) [OF s p] sched_invD(6) [OF s q] np nq T' le'])
  then show ?thesis by (simp add: wakeKey_def getTimeOut_def)
qed

lemma sched_inv_tick_clock:
  assumes "idle_inv w" shows "sched_inv (tick_clock w)"
proof (rule sched_invI)
  note s = idle_invD(1) [OF assms]
  show "List_ok (timeOutList (timer (tick_clock w)))" using sched_invD(2) [OF s] by simp
  show "presentTime (timer (tick_clock w)) \<le> 0x7FFF" by (simp add: and_7fff_le)
  show "distinct (pending (tick_clock w))" using sched_invD(4) [OF s] by simp
  have "sorted (map (wakeKey (tick_clock w)) (pending w))"
    using sched_invD(5) [OF s] wakeKey_tick_clock_le [OF assms]
    by (rule sorted_map_transfer)
  then show "sorted (map (wakeKey (tick_clock w)) (pending (tick_clock w)))" by simp
  show "timeOut (heap (tick_clock w) p) \<le> 0x7FFF" if "p \<in> set (pending (tick_clock w))" for p
    using sched_invD(6) [OF s] that by simp
  show "timePeriod (heap (tick_clock w) p) AND 0x7FFF \<noteq> 0" if "p \<in> set (pending (tick_clock w))" for p
    using sched_invD(7) [OF s] that by simp
qed

lemma wakeKey_NextTick_body:
  "pending w = x # xs \<Longrightarrow> q \<noteq> x \<Longrightarrow> wakeKey (NextTick_body w) q = wakeKey w q"
  by (simp add: wakeKey_def getTimeOut_def NextTick_body_timeOut head_at normalizeTimeOut_def NextTick_body_frame)

lemma sched_inv_NextTick_body:
  assumes s: "sched_inv w" and p: "pending w = x # xs"
  shows "sched_inv (NextTick_body w)"
proof (rule sched_invI)
  let ?w' = "NextTick_body w"
  note ok = sched_invD(2) [OF s]
  have pe: "pending ?w' = bubble (wakeKey ?w') x xs" using ok p by (rule pending_NextTick_body)
  have hx: "List_at (timeOutList (timer w)) 0 = x" using p by (rule head_at)
  have d: "distinct (x # xs)" using sched_invD(4) [OF s] p by simp
  show "List_ok (timeOutList (timer ?w'))" using ok by (rule List_ok_NextTick_body)
  show "presentTime (timer ?w') \<le> 0x7FFF" using sched_invD(3) [OF s] by (simp add: NextTick_body_frame)
  show "distinct (pending ?w')" using d by (simp add: pe distinct_bubble)
  have "wakeKey ?w' q = wakeKey w q" if "q \<in> set xs" for q
  proof -
    have "q \<noteq> x" using that d by auto
    then show ?thesis using p by (rule wakeKey_NextTick_body [rotated])
  qed
  then have meq: "map (wakeKey ?w') xs = map (wakeKey w) xs" by (intro map_cong) simp_all
  have "sorted (map (wakeKey w) xs)" using sched_invD(5) [OF s] p by simp
  then have "sorted (map (wakeKey ?w') xs)" by (simp only: meq)
  then show "sorted (map (wakeKey ?w') (pending ?w'))" unfolding pe by (rule sorted_bubble)
  show "timeOut (heap ?w' q) \<le> 0x7FFF" if "q \<in> set (pending ?w')" for q
  proof -
    have "q \<in> set (pending w)" using that p by (simp add: pe set_bubble)
    then have "timeOut (heap w q) \<le> 0x7FFF" by (rule sched_invD(6) [OF s])
    then show ?thesis by (simp add: NextTick_body_timeOut and_7fff_le)
  qed
  show "timePeriod (heap ?w' q) AND 0x7FFF \<noteq> 0" if "q \<in> set (pending ?w')" for q
  proof -
    have "q \<in> set (pending w)" using that p by (simp add: pe set_bubble)
    then have "timePeriod (heap w q) AND 0x7FFF \<noteq> 0" by (rule sched_invD(7) [OF s])
    then show ?thesis by (simp add: NextTick_body_timePeriod)
  qed
qed

lemma set_pending_NextTick_body:
  assumes "List_ok (timeOutList (timer w))" "pending w \<noteq> []"
  shows "set (pending (NextTick_body w)) = set (pending w)"
proof -
  obtain x xs where p: "pending w = x # xs" using assms(2) by (cases "pending w") auto
  show ?thesis using pending_NextTick_body [OF assms(1) p] p by (simp add: set_bubble)
qed

lemma head_not_due_none_due:
  assumes s: "sched_inv w" and p: "pending w = x # xs" and nd: "\<not> due w x"
    and q: "q \<in> set (pending w)"
  shows "\<not> due w q"
proof
  assume dq: "due w q"
  note c = sched_invD(3) [OF s]
  have kq: "wakeKey w q = presentTime (timer w)"
    using dq by (simp add: due_def wakeKey_def getTimeOut_def normalizeTimeOut_def)
  have "sorted (wakeKey w x # map (wakeKey w) xs)" using sched_invD(5) [OF s] p by simp
  then have "wakeKey w x \<le> wakeKey w q" using p q by auto
  moreover have "presentTime (timer w) \<le> wakeKey w x"
    unfolding wakeKey_def using c by (rule norm_ge_clock)
  ultimately have "wakeKey w x = presentTime (timer w)" using kq by simp
  then have "timeOut (heap w x) = presentTime (timer w)"
    using norm_eq_clock [OF c, of "timeOut (heap w x)"] by (simp add: wakeKey_def getTimeOut_def)
  with nd show False by (simp add: due_def getTimeOut_def)
qed

lemma idle_inv_NextTick:
  assumes "idle_inv w"
  shows "\<exists>w'. NextTick w = Some w' \<and> idle_inv w'"
proof (cases "m_Counter (timeOutList (timer w)) = 0")
  case True
  have s1: "sched_inv (tick_clock w)" using assms by (rule sched_inv_tick_clock)
  have "pending (tick_clock w) = []" using True by (simp add: pending_def entries_def)
  then have "idle_inv (tick_clock w)" using s1 by (simp add: idle_inv_def)
  then show ?thesis using True by (simp add: NextTick_empty)
next
  case False
  note s = idle_invD(1) [OF assms]
  let ?I = "\<lambda>v. sched_inv v \<and> pending v \<noteq> []"
  have ne: "pending (tick_clock w) \<noteq> []"
    using False sched_invD(2) [OF s] by (simp add: pending_nonempty)
  have I0: "?I (tick_clock w)" using sched_inv_tick_clock [OF assms] ne by simp
  have Iok: "tick_ok v \<and> pending v \<noteq> []" if "?I v" for v using that by (simp add: sched_inv_def)
  have Istep: "?I (NextTick_body v)" if I: "?I v" and "presentTime (timer v) = GET_TIMEOUT v 0" for v
  proof -
    obtain x xs where p: "pending v = x # xs" using I by (cases "pending v") auto
    have "sched_inv v" using I by simp
    then have "sched_inv (NextTick_body v)" using p by (rule sched_inv_NextTick_body)
    moreover have "pending (NextTick_body v) \<noteq> []"
      using tick_ok_NextTick_body(2) [of v] Iok [OF I] by simp
    ultimately show ?thesis by simp
  qed
  have "\<exists>w'. NextTick_while (tick_clock w) = Some w' \<and> ?I w' \<and> presentTime (timer w') \<noteq> GET_TIMEOUT w' 0"
    using I0 Iok Istep by (rule NextTick_while_total [of ?I])
  then obtain w' where w': "NextTick_while (tick_clock w) = Some w'" and s': "sched_inv w'"
    and ne': "pending w' \<noteq> []" and ex: "presentTime (timer w') \<noteq> GET_TIMEOUT w' 0" by blast
  obtain x xs where p': "pending w' = x # xs" using ne' by (cases "pending w'") auto
  have "\<not> due w' x" using ex loop_test_due [OF p'] by simp
  then have "\<forall>q \<in> set (pending w'). \<not> due w' q"
    using head_not_due_none_due [OF s' p'] by blast
  then have "idle_inv w'" using s' by (simp add: idle_inv_def)
  moreover have "NextTick w = Some w'" using False w' by (simp add: NextTick_nonempty)
  ultimately show ?thesis by blast
qed

section \<open>The sort invariant\<close>

lemma idle_inv_step:
  assumes "idle_inv w" "admissible x w"
  shows "\<exists>w'. step x w = Some w' \<and> idle_inv w'"
proof (cases x)
  case (Start p)
  then show ?thesis using assms by (simp add: idle_inv_startTimer)
next
  case (Cancel p)
  then show ?thesis using assms by (simp add: idle_inv_cancelTimer)
next
  case Tick
  then show ?thesis using idle_inv_NextTick [OF assms(1)] by simp
qed

lemma idle_inv_run:
  "idle_inv w \<Longrightarrow> admissible_run ops w \<Longrightarrow> \<exists>w'. run ops w = Some w' \<and> idle_inv w'"
proof (induction ops arbitrary: w)
  case Nil
  then show ?case by simp
next
  case (Cons x xs)
  from Cons.prems have a: "admissible x w" by simp
  from idle_inv_step [OF Cons.prems(1) a] obtain w1 where w1: "step x w = Some w1" "idle_inv w1" by blast
  from Cons.prems(2) w1(1) have "admissible_run xs w1" by simp
  from Cons.IH [OF w1(2) this] show ?case using w1(1) by simp
qed

text \<open>
  The order that the code does keep. Start from the empty scheduler and make any sequence of
  \<open>startTimer\<close>, \<open>cancelTimer\<close> and tick operations in which \<open>startTimer\<close> is only given a
  record that is not pending at that moment and whose period is not a multiple of \<open>0x8000\<close>.
  Then every tick returns, and in the state reached no slot compares strictly later than the
  slot after it, under the wrap-safe comparison relative to the clock of that state.
\<close>

theorem sort_invariant_orderly_runs:
  assumes "length raw = MAX_LIST_PTRS" and "admissible_run ops (empty_world raw h)"
  shows "\<exists>w. run ops (empty_world raw h) = Some w \<and> pending_sorted w"
proof -
  have "idle_inv (empty_world raw h)" using assms(1) by (rule idle_inv_empty_world)
  from idle_inv_run [OF this assms(2)] obtain w where "run ops (empty_world raw h) = Some w" "idle_inv w"
    by blast
  then show ?thesis using sched_inv_pending_sorted [OF idle_invD(1)] by blast
qed

text \<open>
  Records 3 and 2 (periods 3 and 2) are started at clock 0, three ticks fire 2 and then 3,
  record 2 is cancelled and started again: the list is \<open>[2, 3]\<close>, waking at 5 and 6.
\<close>

theorem sort_invariant_orderly_runs_witness:
  "length [0, 0, 0, 0, 0::nat] = MAX_LIST_PTRS
   \<and> admissible_run [Start 3, Start 2, Tick, Tick, Tick, Cancel 2, Start 2]
         (empty_world [0, 0, 0, 0, 0] period_heap)
   \<and> run [Start 3, Start 2, Tick, Tick, Tick, Cancel 2, Start 2]
         (empty_world [0, 0, 0, 0, 0] period_heap) \<noteq> None
   \<and> pending (the (run [Start 3, Start 2, Tick, Tick, Tick, Cancel 2, Start 2]
         (empty_world [0, 0, 0, 0, 0] period_heap))) = [2, 3]
   \<and> pending_sorted (the (run [Start 3, Start 2, Tick, Tick, Tick, Cancel 2, Start 2]
         (empty_world [0, 0, 0, 0, 0] period_heap)))"
proof -
  let ?ops = "[Start 3, Start 2, Tick, Tick, Tick, Cancel 2, Start 2]"
  let ?w0 = "empty_world [0, 0, 0, 0, 0] period_heap"
  have l: "length [0, 0, 0, 0, 0::nat] = MAX_LIST_PTRS" by (simp add: MAX_LIST_PTRS_def)
  have a: "admissible_run ?ops ?w0" by (simp add: eval_defs)
  have p: "pending (the (run ?ops ?w0)) = [2, 3]" by (simp add: eval_defs)
  from sort_invariant_orderly_runs [OF l a]
  have "run ?ops ?w0 \<noteq> None \<and> pending_sorted (the (run ?ops ?w0))" by auto
  with l a p show ?thesis by blast
qed

text \<open>
  C1. The invariant does not hold after every sequence of operations: \<^verbatim>\<open>startTimer\<close> does not
  look whether the record it is given is pending already. Records 10 and 11 (periods 10 and
  11) are started at clock 0; after two ticks \<^verbatim>\<open>startTimer\<close> is called on record 10 again.
  Its wake time becomes 12 in the slot it already has, \<^verbatim>\<open>Search\<close> compares 12 with the slots
  waking at 12 and 11 and returns 2, and the list is \<open>[10, 11, 10]\<close> with wake times 12, 11,
  12: slot 0 compares strictly later than slot 1. Nine ticks later the clock is 11 and record
  11 is due, but the head is not and no call has been made, against the comment in
  \<^verbatim>\<open>startTimer\<close>: if timer[0] has not expired, then none have because the list is sorted.
\<close>

theorem sort_invariant_broken_by_restart:
  "run [Start 10, Start 11, Tick, Tick, Start 10] (empty_world [0, 0, 0, 0, 0] period_heap) \<noteq> None
   \<and> pending (the (run [Start 10, Start 11, Tick, Tick, Start 10]
         (empty_world [0, 0, 0, 0, 0] period_heap))) = [10, 11, 10]
   \<and> getCount (timer (the (run [Start 10, Start 11, Tick, Tick, Start 10]
         (empty_world [0, 0, 0, 0, 0] period_heap)))) = 3
   \<and> presentTime (timer (the (run [Start 10, Start 11, Tick, Tick, Start 10]
         (empty_world [0, 0, 0, 0, 0] period_heap)))) = 2
   \<and> GET_TIMEOUT (the (run [Start 10, Start 11, Tick, Tick, Start 10]
         (empty_world [0, 0, 0, 0, 0] period_heap))) 0 = 12
   \<and> GET_TIMEOUT (the (run [Start 10, Start 11, Tick, Tick, Start 10]
         (empty_world [0, 0, 0, 0, 0] period_heap))) 1 = 11
   \<and> normalizeTimeOut (timer (the (run [Start 10, Start 11, Tick, Tick, Start 10]
         (empty_world [0, 0, 0, 0, 0] period_heap))))
        (GET_TIMEOUT (the (run [Start 10, Start 11, Tick, Tick, Start 10]
         (empty_world [0, 0, 0, 0, 0] period_heap))) 0)
      > normalizeTimeOut (timer (the (run [Start 10, Start 11, Tick, Tick, Start 10]
         (empty_world [0, 0, 0, 0, 0] period_heap))))
        (GET_TIMEOUT (the (run [Start 10, Start 11, Tick, Tick, Start 10]
         (empty_world [0, 0, 0, 0, 0] period_heap))) 1)
   \<and> presentTime (timer (the (run [Start 10, Start 11, Tick, Tick, Start 10,
           Tick, Tick, Tick, Tick, Tick, Tick, Tick, Tick, Tick]
         (empty_world [0, 0, 0, 0, 0] period_heap)))) = 11
   \<and> GET_TIMEOUT (the (run [Start 10, Start 11, Tick, Tick, Start 10,
           Tick, Tick, Tick, Tick, Tick, Tick, Tick, Tick, Tick]
         (empty_world [0, 0, 0, 0, 0] period_heap))) 1 = 11
   \<and> calls (the (run [Start 10, Start 11, Tick, Tick, Start 10,
           Tick, Tick, Tick, Tick, Tick, Tick, Tick, Tick, Tick]
         (empty_world [0, 0, 0, 0, 0] period_heap))) = []"
  by (simp add: eval_defs)

text \<open>The state after the second \<^verbatim>\<open>startTimer\<close> on record 10 is not \<open>pending_sorted\<close>.\<close>

lemma restart_not_pending_sorted:
  "\<not> pending_sorted (the (run [Start 10, Start 11, Tick, Tick, Start 10]
         (empty_world [0, 0, 0, 0, 0] period_heap)))"
proof -
  let ?W = "\<lparr>timer = \<lparr>timeOutList = \<lparr>m_Counter = 3, m_ptrList = [10, 11, 10, 0, 0]\<rparr>, presentTime = 2\<rparr>,
             heap = period_heap(11 := elem 11 11 0, 10 := elem 12 10 0), calls = []\<rparr>"
  have r: "run [Start 10, Start 11, Tick, Tick, Start 10] (empty_world [0, 0, 0, 0, 0] period_heap) = Some ?W"
    by (simp add: eval_defs)
  have "1 \<in> set [1 ..< getCount (timer ?W)]
        \<and> normalizeTimeOut (timer ?W) (GET_TIMEOUT ?W (1 - 1)) > normalizeTimeOut (timer ?W) (GET_TIMEOUT ?W 1)"
    by (simp add: eval_defs)
  then have "\<not> pending_sorted ?W" unfolding pending_sorted_def by blast
  then show ?thesis unfolding r by simp
qed

text \<open>
  A period of \<open>0x8000\<close>, which the specification does not allow, breaks the order as well. A
  record of period \<open>0x8000\<close> started at clock 0 wakes at 0; a record of period 5 is placed
  after it; one tick later the clock is 1 and the first slot, now a whole turn of the clock
  away, is strictly later than the second.
\<close>

lemma sort_invariant_broken_by_period_0x8000:
  "run [Start 32768, Start 5, Tick] (empty_world [0, 0, 0, 0, 0] period_heap) \<noteq> None
   \<and> pending (the (run [Start 32768, Start 5, Tick] (empty_world [0, 0, 0, 0, 0] period_heap))) = [32768, 5]
   \<and> \<not> pending_sorted (the (run [Start 32768, Start 5, Tick] (empty_world [0, 0, 0, 0, 0] period_heap)))"
proof -
  let ?W = "\<lparr>timer = \<lparr>timeOutList = \<lparr>m_Counter = 2, m_ptrList = [32768, 5, 0, 0, 0]\<rparr>, presentTime = 1\<rparr>,
             heap = period_heap(32768 := elem 0 32768 0, 5 := elem 5 5 0), calls = []\<rparr>"
  have r: "run [Start 32768, Start 5, Tick] (empty_world [0, 0, 0, 0, 0] period_heap) = Some ?W"
    by (simp add: eval_defs)
  have "1 \<in> set [1 ..< getCount (timer ?W)]
        \<and> normalizeTimeOut (timer ?W) (GET_TIMEOUT ?W (1 - 1)) > normalizeTimeOut (timer ?W) (GET_TIMEOUT ?W 1)"
    by (simp add: eval_defs)
  then have "\<not> pending_sorted ?W" unfolding pending_sorted_def by blast
  moreover have "pending ?W = [32768, 5]" by (simp add: eval_defs)
  ultimately show ?thesis unfolding r by simp
qed

section \<open>Timer::startTimer on a tie\<close>

lemma sorted_mem_takeWhile:
  "sorted (map k xs) \<Longrightarrow> q \<in> set xs \<Longrightarrow> \<not> k p < k q
   \<Longrightarrow> q \<in> set (takeWhile (\<lambda>q. \<not> k p < k q) xs)"
  for k :: "'a \<Rightarrow> uint16_t"
proof (induction xs)
  case Nil then show ?case by simp
next
  case (Cons x xs)
  show ?case
  proof (cases "q = x")
    case True then show ?thesis using Cons.prems by simp
  next
    case False
    then have q: "q \<in> set xs" using Cons.prems by simp
    then have "k x \<le> k q" using Cons.prems(1) by auto
    then have "\<not> k p < k x" using Cons.prems(3) by auto
    moreover have "q \<in> set (takeWhile (\<lambda>q. \<not> k p < k q) xs)"
      using Cons.IH q Cons.prems by simp
    ultimately show ?thesis by simp
  qed
qed

lemma filter_pair_distinct:
  "distinct xs \<Longrightarrow> a \<in> set xs \<Longrightarrow> b \<notin> set xs \<Longrightarrow> filter (\<lambda>p. p = a \<or> p = b) xs = [a]"
proof (induction xs)
  case Nil then show ?case by simp
next
  case (Cons x xs)
  show ?case
  proof (cases "x = a")
    case True
    then have "a \<notin> set xs" using Cons.prems by simp
    then have "filter (\<lambda>p. p = a \<or> p = b) xs = []" using Cons.prems by (auto simp: filter_empty_conv)
    then show ?thesis using True by simp
  next
    case False
    then show ?thesis using Cons by auto
  qed
qed

lemma filter_remove1_other: "\<not> P p \<Longrightarrow> filter P (remove1 p xs) = filter P xs"
  by (induction xs) auto

lemma filter_insert_other:
  "\<not> P p \<Longrightarrow> filter P (takeWhile f xs @ p # dropWhile f xs) = filter P xs"
proof -
  assume "\<not> P p"
  then have "filter P (takeWhile f xs @ p # dropWhile f xs) = filter P (takeWhile f xs) @ filter P (dropWhile f xs)"
    by simp
  also have "\<dots> = filter P xs" by (metis filter_append takeWhile_dropWhile_id)
  finally show ?thesis .
qed

lemma filter_pair_mem:
  "filter (\<lambda>p. p = a \<or> p = b) xs = [a, b] \<Longrightarrow> a \<in> set xs \<and> b \<in> set xs"
proof -
  assume h: "filter (\<lambda>p. p = a \<or> p = b) xs = [a, b]"
  have "set (filter (\<lambda>p. p = a \<or> p = b) xs) = {a, b}" unfolding h by simp
  then show ?thesis by auto
qed

text \<open>Where \<open>startTimer\<close> puts a record that ties with a pending one.\<close>

lemma startTimer_tie_placement:
  assumes inv: "idle_inv w" and a: "a \<in> set (pending w)" and b: "b \<notin> set (pending w)"
    and nf: "\<not> isFull (timer w)"
    and tie: "(presentTime (timer w) + timePeriod (heap w b)) AND 0x7fff = timeOut (heap w a)"
  shows "\<exists>xs ys. pending w = xs @ ys \<and> pending (startTimer b w) = xs @ b # ys
           \<and> (\<forall>q \<in> set (pending w). timeOut (heap w q) = timeOut (heap w a) \<longrightarrow> q \<in> set xs)
           \<and> (\<forall>q \<in> set ys. timeOut (heap w q) \<noteq> timeOut (heap w a))"
    and "filter (\<lambda>p. p = a \<or> p = b) (pending (startTimer b w)) = [a, b]"
proof -
  let ?w' = "startTimer b w"
  let ?f = "\<lambda>q. \<not> wakeKey ?w' b < wakeKey ?w' q"
  let ?xs = "takeWhile ?f (pending w)" and ?ys = "dropWhile ?f (pending w)"
  note s = idle_invD(1) [OF inv]
  note ok = sched_invD(2) [OF s]
  have pe: "pending ?w' = ?xs @ b # ?ys" using ok nf by (rule pending_startTimer)
  have keyold: "wakeKey ?w' q = wakeKey w q" if "q \<in> set (pending w)" for q
  proof -
    have "q \<noteq> b" using that b by auto
    then have "wakeKey ?w' q = normalizeTimeOut (timer w) (timeOut (heap w q))"
      by (simp only: wakeKey_startTimer if_False)
    then show ?thesis by (simp add: wakeKey_def getTimeOut_def)
  qed
  have kb: "wakeKey ?w' b = normalizeTimeOut (timer w) (timeOut (heap w a))"
    using tie by (simp only: wakeKey_startTimer if_True refl)
  have srt: "sorted (map (wakeKey ?w') (pending w))"
    using sched_invD(5) [OF s] keyold by (simp cong: map_cong)
  have eqin: "q \<in> set ?xs" if "q \<in> set (pending w)" "timeOut (heap w q) = timeOut (heap w a)" for q
  proof -
    have "wakeKey ?w' q = wakeKey ?w' b"
      using keyold [OF that(1)] kb that(2) by (simp add: wakeKey_def getTimeOut_def)
    then have "\<not> wakeKey ?w' b < wakeKey ?w' q" by simp
    with srt that(1) show ?thesis by (rule sorted_mem_takeWhile)
  qed
  have neq: "timeOut (heap w q) \<noteq> timeOut (heap w a)" if "q \<in> set ?ys" for q
  proof
    assume e: "timeOut (heap w q) = timeOut (heap w a)"
    have q: "q \<in> set (pending w)" using that by (rule set_dropWhileD)
    from eqin [OF q e] that have "q \<in> set ?xs \<inter> set ?ys" by simp
    moreover have "distinct (?xs @ ?ys)" using sched_invD(4) [OF s] by simp
    ultimately show False by (simp only: distinct_append) blast
  qed
  show "\<exists>xs ys. pending w = xs @ ys \<and> pending (startTimer b w) = xs @ b # ys
           \<and> (\<forall>q \<in> set (pending w). timeOut (heap w q) = timeOut (heap w a) \<longrightarrow> q \<in> set xs)
           \<and> (\<forall>q \<in> set ys. timeOut (heap w q) \<noteq> timeOut (heap w a))"
  proof (intro exI conjI)
    show "pending w = ?xs @ ?ys" by simp
    show "pending ?w' = ?xs @ b # ?ys" by (rule pe)
    show "\<forall>q \<in> set (pending w). timeOut (heap w q) = timeOut (heap w a) \<longrightarrow> q \<in> set ?xs"
      using eqin by blast
    show "\<forall>q \<in> set ?ys. timeOut (heap w q) \<noteq> timeOut (heap w a)" using neq by blast
  qed
  have "filter (\<lambda>p. p = a \<or> p = b) (pending w) = [a]"
    using sched_invD(4) [OF s] a b by (rule filter_pair_distinct)
  then have f1: "filter (\<lambda>p. p = a \<or> p = b) ?xs @ filter (\<lambda>p. p = a \<or> p = b) ?ys = [a]"
    by (metis filter_append takeWhile_dropWhile_id)
  have "a \<in> set ?xs" using eqin [OF a] by simp
  then have "filter (\<lambda>p. p = a \<or> p = b) ?xs \<noteq> []" by (auto simp: filter_empty_conv)
  with f1 have "filter (\<lambda>p. p = a \<or> p = b) ?xs = [a] \<and> filter (\<lambda>p. p = a \<or> p = b) ?ys = []"
    by (simp add: append_eq_Cons_conv)
  then show "filter (\<lambda>p. p = a \<or> p = b) (pending (startTimer b w)) = [a, b]"
    unfolding pe by simp
qed

section \<open>Two tied records while they wait\<close>

lemma NextTick_body_heap_other:
  "pending w = x # xs \<Longrightarrow> q \<noteq> x \<Longrightarrow> heap (NextTick_body w) q = heap w q"
  by (simp add: NextTick_body_heap head_at)

lemma NextTick_body_callers:
  "pending w = x # xs \<Longrightarrow> map fst (calls (NextTick_body w)) = map fst (calls w) @ [x]"
  by (simp add: NextTick_body_calls head_at)

lemma NextTick_body_other:
  assumes ok: "List_ok (timeOutList (timer w))" and p: "pending w = x # xs"
    and x: "x \<noteq> a" "x \<noteq> b"
  shows "filter (\<lambda>p. p = a \<or> p = b) (pending (NextTick_body w)) = filter (\<lambda>p. p = a \<or> p = b) (pending w)"
    and "heap (NextTick_body w) a = heap w a" and "heap (NextTick_body w) b = heap w b"
proof -
  have "filter (\<lambda>p. p = a \<or> p = b) (bubble (wakeKey (NextTick_body w)) x xs) = filter (\<lambda>p. p = a \<or> p = b) xs"
    using x by (intro filter_bubble) simp
  then show "filter (\<lambda>p. p = a \<or> p = b) (pending (NextTick_body w)) = filter (\<lambda>p. p = a \<or> p = b) (pending w)"
    using pending_NextTick_body [OF ok p] p x by simp
  show "heap (NextTick_body w) a = heap w a" using p x(1) by (intro NextTick_body_heap_other) auto
  show "heap (NextTick_body w) b = heap w b" using p x(2) by (intro NextTick_body_heap_other) auto
qed

lemma waiting_startTimer:
  assumes wt: "waiting a b t w" and ad: "admissible (Start p) w"
  shows "waiting a b t (startTimer p w)"
proof -
  have inv: "idle_inv w" and f: "filter (\<lambda>p. p = a \<or> p = b) (pending w) = [a, b]"
    and ta: "timeOut (heap w a) = t" and tb: "timeOut (heap w b) = t"
    using wt by (simp_all add: waiting_def)
  have new: "p \<notin> set (pending w)" and per: "timePeriod (heap w p) AND 0x7FFF \<noteq> 0" using ad by simp_all
  have ab: "a \<in> set (pending w) \<and> b \<in> set (pending w)" using f by (rule filter_pair_mem)
  then have pa: "p \<noteq> a" and pb: "p \<noteq> b" using new by auto
  have ok: "List_ok (timeOutList (timer w))" using inv by (simp add: idle_inv_def sched_inv_def tick_ok_def)
  have "filter (\<lambda>p. p = a \<or> p = b) (pending (startTimer p w)) = filter (\<lambda>p. p = a \<or> p = b) (pending w)"
  proof (cases "isFull (timer w)")
    case True then show ?thesis by (simp add: pending_startTimer_full)
  next
    case False
    show ?thesis unfolding pending_startTimer [OF ok False, of p]
      using pa pb by (intro filter_insert_other) simp
  qed
  moreover have "idle_inv (startTimer p w)" using inv new per by (rule idle_inv_startTimer)
  moreover have "timeOut (heap (startTimer p w) a) = t" "timeOut (heap (startTimer p w) b) = t"
    using pa pb ta tb by (simp_all add: startTimer_heap)
  ultimately show ?thesis using f by (simp add: waiting_def)
qed

lemma waiting_cancelTimer:
  assumes wt: "waiting a b t w" and pa: "p \<noteq> a" and pb: "p \<noteq> b"
  shows "waiting a b t (cancelTimer p w)"
proof -
  have inv: "idle_inv w" and f: "filter (\<lambda>p. p = a \<or> p = b) (pending w) = [a, b]"
    using wt by (simp_all add: waiting_def)
  have ok: "List_ok (timeOutList (timer w))" using inv by (simp add: idle_inv_def sched_inv_def tick_ok_def)
  have "filter (\<lambda>p. p = a \<or> p = b) (pending (cancelTimer p w)) = filter (\<lambda>p. p = a \<or> p = b) (pending w)"
    unfolding pending_cancelTimer [OF ok] using pa pb by (intro filter_remove1_other) simp
  moreover have "idle_inv (cancelTimer p w)" using inv by (rule idle_inv_cancelTimer)
  ultimately show ?thesis using wt by (simp add: waiting_def)
qed

lemma waiting_NextTick:
  assumes wt: "waiting a b t w" and nt: "(presentTime (timer w) + 1) AND 0x7fff \<noteq> t"
  shows "\<exists>w'. NextTick w = Some w' \<and> waiting a b t w'"
proof -
  have inv: "idle_inv w" and f: "filter (\<lambda>p. p = a \<or> p = b) (pending w) = [a, b]"
    and ta: "timeOut (heap w a) = t" and tb: "timeOut (heap w b) = t"
    using wt by (simp_all add: waiting_def)
  let ?c = "(presentTime (timer w) + 1) AND 0x7fff"
  let ?I = "\<lambda>v. sched_inv v \<and> pending v \<noteq> [] \<and> presentTime (timer v) = ?c
              \<and> filter (\<lambda>p. p = a \<or> p = b) (pending v) = [a, b]
              \<and> timeOut (heap v a) = t \<and> timeOut (heap v b) = t"
  have ne: "pending w \<noteq> []" using f by auto
  have I0: "?I (tick_clock w)" using sched_inv_tick_clock [OF inv] ne f ta tb by simp
  have Iok: "tick_ok v \<and> pending v \<noteq> []" if "?I v" for v using that by (simp add: sched_inv_def)
  have Istep: "?I (NextTick_body v)" if I: "?I v" and test: "presentTime (timer v) = GET_TIMEOUT v 0" for v
  proof -
    obtain x xs where p: "pending v = x # xs" using I by (cases "pending v") auto
    have s: "sched_inv v" using I by simp
    have "due v x" using loop_test_due [OF p] test by simp
    then have "timeOut (heap v x) = ?c" using I by (simp add: due_def getTimeOut_def)
    then have x: "x \<noteq> a" "x \<noteq> b" using I nt by auto
    note o = NextTick_body_other [OF sched_invD(2) [OF s] p x]
    have "sched_inv (NextTick_body v)" using s p by (rule sched_inv_NextTick_body)
    moreover have "pending (NextTick_body v) \<noteq> []"
      using tick_ok_NextTick_body(2) [of v] Iok [OF I] by simp
    ultimately show ?thesis using I o by (simp add: NextTick_body_frame)
  qed
  have "\<exists>w'. NextTick_while (tick_clock w) = Some w' \<and> ?I w' \<and> presentTime (timer w') \<noteq> GET_TIMEOUT w' 0"
    using I0 Iok Istep by (rule NextTick_while_total [of ?I])
  then obtain w' where w': "NextTick_while (tick_clock w) = Some w'" and I': "?I w'"
    and ex: "presentTime (timer w') \<noteq> GET_TIMEOUT w' 0" by blast
  obtain x xs where p': "pending w' = x # xs" using I' by (cases "pending w'") auto
  have "\<not> due w' x" using ex loop_test_due [OF p'] by simp
  then have "\<forall>q \<in> set (pending w'). \<not> due w' q"
    using head_not_due_none_due [of w' x xs] I' p' by blast
  then have "idle_inv w'" using I' by (simp add: idle_inv_def)
  then have "waiting a b t w'" using I' by (simp add: waiting_def)
  moreover have "0 < m_Counter (timeOutList (timer w))"
    using ne inv by (simp add: pending_nonempty idle_inv_def sched_inv_def tick_ok_def)
  then have "NextTick w = Some w'" using w' by (simp add: NextTick_nonempty)
  ultimately show ?thesis by blast
qed

lemma waiting_step:
  assumes "waiting a b t w" "quiet a b x w"
  shows "\<exists>w'. step x w = Some w' \<and> waiting a b t w'"
proof (cases x)
  case (Start p)
  then show ?thesis using assms waiting_startTimer [of a b t w p] by simp
next
  case (Cancel p)
  then show ?thesis using assms waiting_cancelTimer [of a b t w p] by simp
next
  case Tick
  then have "(presentTime (timer w) + 1) AND 0x7fff \<noteq> t" using assms by (simp add: waiting_def)
  from waiting_NextTick [OF assms(1) this] show ?thesis using Tick by simp
qed

lemma waiting_run:
  "waiting a b t w \<Longrightarrow> quiet_run a b ops w \<Longrightarrow> \<exists>w'. run ops w = Some w' \<and> waiting a b t w'"
proof (induction ops arbitrary: w)
  case Nil
  then show ?case by simp
next
  case (Cons x xs)
  from Cons.prems have q: "quiet a b x w" by simp
  from waiting_step [OF Cons.prems(1) q] obtain w1 where w1: "step x w = Some w1" "waiting a b t w1" by blast
  from Cons.prems(2) w1(1) have "quiet_run a b xs w1" by simp
  from Cons.IH [OF w1(2) this] show ?case using w1(1) by simp
qed

lemma waiting_fire:
  assumes wt: "waiting a b t w" and at: "(presentTime (timer w) + 1) AND 0x7fff = t"
  shows "\<exists>w'. NextTick w = Some w'
           \<and> filter (\<lambda>p. p = a \<or> p = b) (callers_from (length (calls w)) w') = [a, b]"
proof -
  let ?P = "\<lambda>p. p = a \<or> p = b"
  have inv: "idle_inv w" and f: "filter ?P (pending w) = [a, b]"
    and ta: "timeOut (heap w a) = t" and tb: "timeOut (heap w b) = t"
    using wt by (simp_all add: waiting_def)
  have "distinct (filter ?P (pending w))"
    using inv by (simp add: idle_inv_def sched_inv_def)
  then have ab: "a \<noteq> b" unfolding f by simp
  have mem: "a \<in> set (pending w) \<and> b \<in> set (pending w)" using f by (rule filter_pair_mem)
  let ?ph0 = "\<lambda>v rest. filter ?P (pending v) = [a, b] \<and> due v a \<and> due v b \<and> filter ?P rest = []"
  let ?ph1 = "\<lambda>v rest. \<not> due v a \<and> due v b \<and> filter ?P rest = [a]"
  let ?ph2 = "\<lambda>v rest. \<not> due v a \<and> \<not> due v b \<and> filter ?P rest = [a, b]"
  let ?I = "\<lambda>v. sched_inv v \<and> pending v \<noteq> [] \<and> a \<in> set (pending v) \<and> b \<in> set (pending v)
              \<and> (\<exists>rest. map fst (calls v) = map fst (calls w) @ rest
                     \<and> (?ph0 v rest \<or> ?ph1 v rest \<or> ?ph2 v rest))"
  have ne: "pending w \<noteq> []" using f by auto
  have d0: "due (tick_clock w) a" "due (tick_clock w) b"
    using at ta tb by (simp_all add: due_def getTimeOut_def)
  have "?ph0 (tick_clock w) []" using f d0 by simp
  then have "\<exists>rest. map fst (calls (tick_clock w)) = map fst (calls w) @ rest
                     \<and> (?ph0 (tick_clock w) rest \<or> ?ph1 (tick_clock w) rest \<or> ?ph2 (tick_clock w) rest)"
    by (intro exI [of _ "[]"]) simp
  then have I0: "?I (tick_clock w)" using sched_inv_tick_clock [OF inv] ne mem by simp
  have Iok: "tick_ok v \<and> pending v \<noteq> []" if "?I v" for v using that by (simp add: sched_inv_def)
  have Istep: "?I (NextTick_body v)" if I: "?I v" and test: "presentTime (timer v) = GET_TIMEOUT v 0" for v
  proof -
    obtain x xs where p: "pending v = x # xs" using I by (cases "pending v") auto
    have s: "sched_inv v" using I by simp
    note ok = sched_invD(2) [OF s]
    have tk: "tick_ok v" using s by (simp add: sched_inv_def)
    have dx: "due v x" using loop_test_due [OF p] test by simp
    have ndx: "\<not> due (NextTick_body v) x" using tk p dx by (rule due_NextTick_body(1))
    have dq: "due (NextTick_body v) q = due v q" if "q \<noteq> x" for q
      using due_NextTick_body(2) [OF tk p dx that] .
    have cl: "map fst (calls (NextTick_body v)) = map fst (calls v) @ [x]"
      using p by (rule NextTick_body_callers)
    have s': "sched_inv (NextTick_body v)" using s p by (rule sched_inv_NextTick_body)
    have ne': "pending (NextTick_body v) \<noteq> []" using tick_ok_NextTick_body(2) [of v] Iok [OF I] by simp
    have st: "set (pending (NextTick_body v)) = set (pending v)"
      using ok by (rule set_pending_NextTick_body) (use p in simp)
    obtain rest where r: "map fst (calls v) = map fst (calls w) @ rest"
      and ph: "?ph0 v rest \<or> ?ph1 v rest \<or> ?ph2 v rest" using I by blast
    have r': "map fst (calls (NextTick_body v)) = map fst (calls w) @ (rest @ [x])"
      using cl r by simp
    have "?ph0 (NextTick_body v) (rest @ [x]) \<or> ?ph1 (NextTick_body v) (rest @ [x])
          \<or> ?ph2 (NextTick_body v) (rest @ [x])"
    proof (cases "x = a")
      case xa: True
      then have "?ph0 v rest" using ph dx by auto
      then have "?ph1 (NextTick_body v) (rest @ [x])"
        using xa ndx dq [of b] ab by auto
      then show ?thesis by blast
    next
      case xna: False
      show ?thesis
      proof (cases "x = b")
        case xb: True
        have "\<not> ?ph0 v rest"
        proof
          assume "?ph0 v rest"
          then have "filter ?P (x # xs) = [a, b]" using p by simp
          then show False using xb ab by simp
        qed
        then have "?ph1 v rest" using ph dx xb by auto
        then have "?ph2 (NextTick_body v) (rest @ [x])"
          using xb ndx dq [of a] ab by auto
        then show ?thesis by blast
      next
        case xnb: False
        note o = NextTick_body_other [OF ok p xna xnb]
        have da: "due (NextTick_body v) a = due v a" using xna by (intro dq) simp
        have db: "due (NextTick_body v) b = due v b" using xnb by (intro dq) simp
        have fr: "filter ?P (rest @ [x]) = filter ?P rest" using xna xnb by simp
        show ?thesis using ph unfolding da db fr o(1) by blast
      qed
    qed
    then have "\<exists>rest'. map fst (calls (NextTick_body v)) = map fst (calls w) @ rest'
                 \<and> (?ph0 (NextTick_body v) rest' \<or> ?ph1 (NextTick_body v) rest' \<or> ?ph2 (NextTick_body v) rest')"
      using r' by blast
    then show ?thesis using s' ne' st I by simp
  qed
  have "\<exists>w'. NextTick_while (tick_clock w) = Some w' \<and> ?I w' \<and> presentTime (timer w') \<noteq> GET_TIMEOUT w' 0"
    using I0 Iok Istep by (rule NextTick_while_total [of ?I])
  then obtain w' where w': "NextTick_while (tick_clock w) = Some w'" and I': "?I w'"
    and ex: "presentTime (timer w') \<noteq> GET_TIMEOUT w' 0" by blast
  obtain x xs where p': "pending w' = x # xs" using I' by (cases "pending w'") auto
  have "\<not> due w' x" using ex loop_test_due [OF p'] by simp
  then have nd: "\<not> due w' q" if "q \<in> set (pending w')" for q
    using head_not_due_none_due [of w' x xs q] I' p' that by blast
  have nda: "\<not> due w' a" and ndb: "\<not> due w' b" using nd I' by simp_all
  obtain rest where r: "map fst (calls w') = map fst (calls w) @ rest"
    and ph: "?ph0 w' rest \<or> ?ph1 w' rest \<or> ?ph2 w' rest" using I' by blast
  have "filter ?P rest = [a, b]" using ph nda ndb by blast
  moreover have "callers_from (length (calls w)) w' = rest"
  proof -
    have "callers_from (length (calls w)) w' = drop (length (calls w)) (map fst (calls w'))"
      by (simp add: callers_from_def drop_map)
    then show ?thesis unfolding r by simp
  qed
  moreover have "0 < m_Counter (timeOutList (timer w))"
    using ne inv by (simp add: pending_nonempty idle_inv_def sched_inv_def tick_ok_def)
  then have "NextTick w = Some w'" using w' by (simp add: NextTick_nonempty)
  ultimately show ?thesis by simp
qed

section \<open>Tie ordering\<close>

text \<open>
  Ties in orderly use. The scheduler is idle and in order (\<open>idle_inv\<close>, the state of every
  orderly run), the list has room, \<open>a\<close> is pending, \<open>b\<close> is not, and the wake time that
  \<open>startTimer\<close> computes for \<open>b\<close> is the wake time of \<open>a\<close>. Then \<open>startTimer\<close> puts \<open>b\<close>
  after every pending record with that wake time. And after any run that leaves \<open>a\<close> and
  \<open>b\<close> waiting, the tick that brings the clock to that wake time returns, and of the two
  it is \<open>a\<close> that calls first, then \<open>b\<close>, each once.
\<close>

theorem tie_placed_after_and_fires_after:
  assumes inv: "idle_inv w"
    and a: "a \<in> set (pending w)" and b: "b \<notin> set (pending w)"
    and nf: "\<not> isFull (timer w)"
    and tie: "(presentTime (timer w) + timePeriod (heap w b)) AND 0x7fff = timeOut (heap w a)"
  shows "(\<exists>xs ys. pending w = xs @ ys \<and> pending (startTimer b w) = xs @ b # ys
            \<and> (\<forall>q \<in> set (pending w). timeOut (heap w q) = timeOut (heap w a) \<longrightarrow> q \<in> set xs))
       \<and> (\<forall>ops w2. quiet_run a b ops (startTimer b w) \<and> run ops (startTimer b w) = Some w2
              \<and> (presentTime (timer w2) + 1) AND 0x7fff = timeOut (heap w a)
            \<longrightarrow> (\<exists>w3. NextTick w2 = Some w3
                  \<and> filter (\<lambda>p. p = a \<or> p = b) (callers_from (length (calls w2)) w3) = [a, b]))"
proof -
  let ?t = "timeOut (heap w a)"
  note s = idle_invD(1) [OF inv]
  have ab: "a \<noteq> b" using a b by auto
  have per: "timePeriod (heap w b) AND 0x7FFF \<noteq> 0"
  proof
    assume z: "timePeriod (heap w b) AND 0x7FFF = 0"
    have "(timePeriod (heap w b) + presentTime (timer w)) AND 0x7FFF = presentTime (timer w)"
      using sched_invD(3) [OF s] z by (rule rearm_same)
    then have "due w a" using tie by (simp add: due_def getTimeOut_def add.commute)
    with idle_invD(2) [OF inv a] show False by simp
  qed
  have place: "\<exists>xs ys. pending w = xs @ ys \<and> pending (startTimer b w) = xs @ b # ys
           \<and> (\<forall>q \<in> set (pending w). timeOut (heap w q) = timeOut (heap w a) \<longrightarrow> q \<in> set xs)"
    using startTimer_tie_placement(1) [OF inv a b nf tie] by blast
  have "idle_inv (startTimer b w)" using inv b per by (rule idle_inv_startTimer)
  moreover have "filter (\<lambda>p. p = a \<or> p = b) (pending (startTimer b w)) = [a, b]"
    using inv a b nf tie by (rule startTimer_tie_placement(2))
  moreover have "timeOut (heap (startTimer b w) a) = ?t" using ab by (simp add: startTimer_heap)
  moreover have "timeOut (heap (startTimer b w) b) = ?t" using tie by (simp add: startTimer_heap)
  ultimately have wt: "waiting a b ?t (startTimer b w)" by (simp add: waiting_def)
  have "\<exists>w3. NextTick w2 = Some w3
          \<and> filter (\<lambda>p. p = a \<or> p = b) (callers_from (length (calls w2)) w3) = [a, b]"
    if q: "quiet_run a b ops (startTimer b w)" and r: "run ops (startTimer b w) = Some w2"
      and at: "(presentTime (timer w2) + 1) AND 0x7fff = ?t" for ops w2
  proof -
    from waiting_run [OF wt q] r have "waiting a b ?t w2" by simp
    then show ?thesis using at by (rule waiting_fire)
  qed
  with place show ?thesis by blast
qed

text \<open>
  Record 1 is pending with wake time 2 and the clock is 0; record 2 has period 2. It is put
  after record 1, one tick passes, and the tick to 2 calls for record 1, then for record 2.
\<close>

theorem tie_placed_after_and_fires_after_witness:
  "idle_inv (mk_world 1 [1, 0, 0, 0, 0] 0 (const_heap (elem 2 2 0)))
   \<and> 1 \<in> set (pending (mk_world 1 [1, 0, 0, 0, 0] 0 (const_heap (elem 2 2 0))))
   \<and> 2 \<notin> set (pending (mk_world 1 [1, 0, 0, 0, 0] 0 (const_heap (elem 2 2 0))))
   \<and> \<not> isFull (timer (mk_world 1 [1, 0, 0, 0, 0] 0 (const_heap (elem 2 2 0))))
   \<and> (presentTime (timer (mk_world 1 [1, 0, 0, 0, 0] 0 (const_heap (elem 2 2 0))))
        + timePeriod (heap (mk_world 1 [1, 0, 0, 0, 0] 0 (const_heap (elem 2 2 0))) 2)) AND 0x7fff
       = timeOut (heap (mk_world 1 [1, 0, 0, 0, 0] 0 (const_heap (elem 2 2 0))) 1)
   \<and> pending (startTimer 2 (mk_world 1 [1, 0, 0, 0, 0] 0 (const_heap (elem 2 2 0)))) = [1, 2]
   \<and> quiet_run 1 2 [Tick] (startTimer 2 (mk_world 1 [1, 0, 0, 0, 0] 0 (const_heap (elem 2 2 0))))
   \<and> NextTick (the (run [Tick] (startTimer 2 (mk_world 1 [1, 0, 0, 0, 0] 0 (const_heap (elem 2 2 0))))))
       \<noteq> None
   \<and> callers_from 0 (the (NextTick (the (run [Tick]
         (startTimer 2 (mk_world 1 [1, 0, 0, 0, 0] 0 (const_heap (elem 2 2 0)))))))) = [1, 2]"
proof -
  let ?w = "mk_world 1 [1, 0, 0, 0, 0] 0 (const_heap (elem 2 2 0))"
  let ?w2 = "the (run [Tick] (startTimer 2 ?w))"
  have h1: "idle_inv ?w"
    by (simp add: eval_defs idle_inv_def sched_inv_def tick_ok_def due_def wakeKey_def)
  have h2: "1 \<in> set (pending ?w)" by (simp add: eval_defs)
  have h3: "2 \<notin> set (pending ?w)" by (simp add: eval_defs)
  have h4: "\<not> isFull (timer ?w)" by (simp add: eval_defs)
  have h5: "(presentTime (timer ?w) + timePeriod (heap ?w 2)) AND 0x7fff = timeOut (heap ?w 1)"
    by (simp add: eval_defs)
  have p: "pending (startTimer 2 ?w) = [1, 2]" by (simp add: eval_defs)
  have q: "quiet_run 1 2 [Tick] (startTimer 2 ?w)" by (simp add: eval_defs)
  have r: "run [Tick] (startTimer 2 ?w) = Some ?w2" by (simp add: eval_defs)
  have at: "(presentTime (timer ?w2) + 1) AND 0x7fff = timeOut (heap ?w 1)" by (simp add: eval_defs)
  have c: "callers_from 0 (the (NextTick ?w2)) = [1, 2]" by (simp add: eval_defs callers_from_def)
  from tie_placed_after_and_fires_after [OF h1 h2 h3 h4 h5] q r at
  have "\<exists>w3. NextTick ?w2 = Some w3
          \<and> filter (\<lambda>p. p = 1 \<or> p = 2) (callers_from (length (calls ?w2)) w3) = [1, 2]"
    by blast
  then have "NextTick ?w2 \<noteq> None" by auto
  with h1 h2 h3 h4 h5 p q c show ?thesis by blast
qed

text \<open>
  C7. The tie order is lost in the list that a second \<^verbatim>\<open>startTimer\<close> on a pending record leaves
  out of order; \<^verbatim>\<open>startTimer\<close> does not look whether the record it is given is pending already.
  After \<^verbatim>\<open>startTimer\<close> on records 10 and 11, two ticks and \<^verbatim>\<open>startTimer\<close> on record 10
  again, the list is \<open>[10, 11, 10]\<close> with wake times 12, 11, 12 and has room. Record 9
  (period 9) is started at clock 2: its wake time is 11, as for the pending record 11, and
  \<^verbatim>\<open>Search\<close> stops at slot 0, so record 9 is put before record 11 and not after it. The tick
  that brings the clock to 11 calls for record 9 only: record 11, started first, is behind a
  slot that is not due and does not fire on the tick at which both are due.
\<close>

theorem tie_placed_before_after_restart:
  "run [Start 10, Start 11, Tick, Tick, Start 10] (empty_world [0, 0, 0, 0, 0] period_heap) \<noteq> None
   \<and> 11 \<in> set (pending (the (run [Start 10, Start 11, Tick, Tick, Start 10]
         (empty_world [0, 0, 0, 0, 0] period_heap))))
   \<and> 9 \<notin> set (pending (the (run [Start 10, Start 11, Tick, Tick, Start 10]
         (empty_world [0, 0, 0, 0, 0] period_heap))))
   \<and> \<not> isFull (timer (the (run [Start 10, Start 11, Tick, Tick, Start 10]
         (empty_world [0, 0, 0, 0, 0] period_heap))))
   \<and> timeOut (heap (the (run [Start 10, Start 11, Tick, Tick, Start 10, Start 9]
         (empty_world [0, 0, 0, 0, 0] period_heap))) 9)
       = timeOut (heap (the (run [Start 10, Start 11, Tick, Tick, Start 10, Start 9]
         (empty_world [0, 0, 0, 0, 0] period_heap))) 11)
   \<and> pending (the (run [Start 10, Start 11, Tick, Tick, Start 10, Start 9]
         (empty_world [0, 0, 0, 0, 0] period_heap))) = [9, 10, 11, 10]
   \<and> presentTime (timer (the (run [Start 10, Start 11, Tick, Tick, Start 10, Start 9,
           Tick, Tick, Tick, Tick, Tick, Tick, Tick, Tick, Tick]
         (empty_world [0, 0, 0, 0, 0] period_heap)))) = 11
   \<and> callers_from 0 (the (run [Start 10, Start 11, Tick, Tick, Start 10, Start 9,
           Tick, Tick, Tick, Tick, Tick, Tick, Tick, Tick, Tick]
         (empty_world [0, 0, 0, 0, 0] period_heap))) = [9]"
  by (simp add: eval_defs callers_from_def)

end
